theory Spec2Isabelle
  imports Main "HOL-Library.Word" "HOL-Library.Monad_Syntax"
begin

unbundle bit_operations_syntax

section \<open>Bitboard: a 64 bit set of squares kept as two 32 bit halves\<close>

text \<open>
  \<^verbatim>\<open>Chess.Bitboard\<close> stores \<^verbatim>\<open>low\<close> and \<^verbatim>\<open>high\<close>, each forced to an unsigned
  32 bit value by \<^verbatim>\<open>>>> 0\<close>.  The methods mutate \<^verbatim>\<open>this\<close> and return it; here they
  return the new value.  An index argument is the value after \<^verbatim>\<open>index >>>= 0\<close>; the
  shift count of \<^verbatim>\<open><<\<close> is taken modulo 32, as JavaScript does.
\<close>

record bitboard =
  low :: "32 word"
  high :: "32 word"

definition makeBitboard :: "32 word \<Rightarrow> 32 word \<Rightarrow> bitboard" where
  "makeBitboard l h = \<lparr>low = l, high = h\<rparr>"

definition popcnt32 :: "32 word \<Rightarrow> nat" where
  "popcnt32 v0 =
     (let v1 = v0 - (drop_bit 1 v0 AND 0x55555555);
          v2 = (v1 AND 0x33333333) + (drop_bit 2 v1 AND 0x33333333)
      in unat (drop_bit 24 (((v2 + drop_bit 4 v2) AND 0xF0F0F0F) * 0x1010101)))"

definition popLowestBit32 :: "32 word \<Rightarrow> 32 word" where
  "popLowestBit32 v = v AND (v - 1)"

definition getLowestBitPosition32 :: "32 word \<Rightarrow> nat" where
  "getLowestBitPosition32 v = popcnt32 ((v AND (- v)) - 1)"

definition popcnt :: "bitboard \<Rightarrow> nat" where
  "popcnt b = popcnt32 (low b) + popcnt32 (high b)"

definition popLowestBit :: "bitboard \<Rightarrow> bitboard" where
  "popLowestBit b =
     (if low b \<noteq> 0 then b\<lparr>low := popLowestBit32 (low b)\<rparr>
      else b\<lparr>high := popLowestBit32 (high b)\<rparr>)"

definition getLowestBitPosition :: "bitboard \<Rightarrow> nat" where
  "getLowestBitPosition b =
     (if low b \<noteq> 0 then getLowestBitPosition32 (low b)
      else 32 + getLowestBitPosition32 (high b))"

definition isEmpty :: "bitboard \<Rightarrow> bool" where
  "isEmpty b \<longleftrightarrow> low b = 0 \<and> high b = 0"

definition isClear :: "bitboard \<Rightarrow> nat \<Rightarrow> bool" where
  "isClear b index =
     (if index < 32 then low b AND push_bit index 1 = 0
      else high b AND push_bit ((index - 32) mod 32) 1 = 0)"

definition isSet :: "bitboard \<Rightarrow> nat \<Rightarrow> bool" where
  "isSet b index \<longleftrightarrow> \<not> isClear b index"

definition setBit :: "bitboard \<Rightarrow> nat \<Rightarrow> bitboard" where
  "setBit b index =
     (if index < 32 then b\<lparr>low := low b OR push_bit index 1\<rparr>
      else b\<lparr>high := high b OR push_bit ((index - 32) mod 32) 1\<rparr>)"

definition clearBit :: "bitboard \<Rightarrow> nat \<Rightarrow> bitboard" where
  "clearBit b index =
     (if index < 32 then b\<lparr>low := low b AND NOT (push_bit index 1)\<rparr>
      else b\<lparr>high := high b AND NOT (push_bit ((index - 32) mod 32) 1)\<rparr>)"

definition and_bb :: "bitboard \<Rightarrow> bitboard \<Rightarrow> bitboard" where
  "and_bb b other = \<lparr>low = low b AND low other, high = high b AND high other\<rparr>"

definition and_not :: "bitboard \<Rightarrow> bitboard \<Rightarrow> bitboard" where
  "and_not b other = \<lparr>low = low b AND NOT (low other), high = high b AND NOT (high other)\<rparr>"

definition or_bb :: "bitboard \<Rightarrow> bitboard \<Rightarrow> bitboard" where
  "or_bb b other = \<lparr>low = low b OR low other, high = high b OR high other\<rparr>"

definition xor_bb :: "bitboard \<Rightarrow> bitboard \<Rightarrow> bitboard" where
  "xor_bb b other = \<lparr>low = low b XOR low other, high = high b XOR high other\<rparr>"

definition not_bb :: "bitboard \<Rightarrow> bitboard" where
  "not_bb b = \<lparr>low = NOT (low b), high = NOT (high b)\<rparr>"

text \<open>
  \<^verbatim>\<open>shl\<close> and \<^verbatim>\<open>shr\<close> are documented for \<^verbatim>\<open>v\<close> in 0..63; the shift counts are
  written modulo 32 so that the definitions say what JavaScript computes for any count.
\<close>

definition shl :: "bitboard \<Rightarrow> nat \<Rightarrow> bitboard" where
  "shl b v =
     (if v > 31 then \<lparr>low = 0, high = push_bit ((v - 32) mod 32) (low b)\<rparr>
      else if v > 0 then
        \<lparr>low = push_bit v (low b),
         high = push_bit v (high b) OR drop_bit ((32 - v) mod 32) (low b)\<rparr>
      else b)"

definition shr :: "bitboard \<Rightarrow> nat \<Rightarrow> bitboard" where
  "shr b v =
     (if v > 31 then \<lparr>low = drop_bit ((v - 32) mod 32) (high b), high = 0\<rparr>
      else if v > 0 then
        \<lparr>low = drop_bit v (low b) OR push_bit ((32 - v) mod 32) (high b),
         high = drop_bit v (high b)\<rparr>
      else b)"

definition shiftLeft :: "bitboard \<Rightarrow> int \<Rightarrow> bitboard" where
  "shiftLeft b v =
     (if v > 63 \<or> v < - 63 then \<lparr>low = 0, high = 0\<rparr>
      else if v > 0 then shl b (nat v)
      else if v < 0 then shr b (nat (- v))
      else b)"

definition isEqual :: "bitboard \<Rightarrow> bitboard \<Rightarrow> bool" where
  "isEqual b other \<longleftrightarrow> low b = low other \<and> high b = high other"

definition makeZero :: bitboard where
  "makeZero = makeBitboard 0 0"

definition makeOne :: bitboard where
  "makeOne = makeBitboard 0xFFFFFFFF 0xFFFFFFFF"

definition makeLightSquares :: bitboard where
  "makeLightSquares = makeBitboard 0x55AA55AA 0x55AA55AA"

definition makeDarkSquares :: bitboard where
  "makeDarkSquares = makeBitboard 0xAA55AA55 0xAA55AA55"

definition makeFile :: "nat \<Rightarrow> bitboard" where
  "makeFile file = shl (makeBitboard 0x01010101 0x01010101) file"

definition makeRank :: "nat \<Rightarrow> bitboard" where
  "makeRank rank = shl (makeBitboard 0xFF 0) (rank * 8)"

definition makeIndex :: "nat \<Rightarrow> bitboard" where
  "makeIndex index = setBit makeZero index"


text \<open>The constant boards and the per-square tables, built once when the script loads.\<close>

definition ZERO :: bitboard where
  "ZERO = makeZero"

definition ONE :: bitboard where
  "ONE = makeOne"

definition LIGHT_SQUARES :: bitboard where
  "LIGHT_SQUARES = makeLightSquares"

definition DARK_SQUARES :: bitboard where
  "DARK_SQUARES = makeDarkSquares"

definition FILES :: "bitboard list" where
  "FILES = map makeFile [0..<8]"

definition RANKS :: "bitboard list" where
  "RANKS = map makeRank [0..<8]"

definition makeKnightMovement :: "nat \<Rightarrow> bitboard" where
  "makeKnightMovement index =
     (let b = setBit makeZero index;
          l1 = and_not (shr b 1) (FILES ! 7);
          l2 = and_not (and_not (shr b 2) (FILES ! 7)) (FILES ! 6);
          r1 = and_not (shl b 1) (FILES ! 0);
          r2 = and_not (and_not (shl b 2) (FILES ! 0)) (FILES ! 1);
          v1 = or_bb l2 r2;
          v2 = or_bb l1 r1
      in or_bb (or_bb (or_bb (shl v1 8) (shr v1 8)) (shl v2 16)) (shr v2 16))"

definition makeKingMovement :: "nat \<Rightarrow> bitboard" where
  "makeKingMovement index =
     (let b = setBit makeZero index;
          c = or_bb (and_not (shr b 1) (FILES ! 7)) (and_not (shl b 1) (FILES ! 0));
          u = shr (or_bb b c) 8;
          d = shl (or_bb b c) 8
      in or_bb (or_bb c u) d)"

definition KNIGHT_MOVEMENTS :: "bitboard list" where
  "KNIGHT_MOVEMENTS = map makeKnightMovement [0..<64]"

definition KING_MOVEMENTS :: "bitboard list" where
  "KING_MOVEMENTS = map makeKingMovement [0..<64]"

text \<open>
  Reading a table at an index that may lie outside it: JavaScript yields \<^verbatim>\<open>undefined\<close>,
  and the method call on it that follows throws a TypeError.  \<open>None\<close> stands for that.
\<close>

definition lookup :: "'a list \<Rightarrow> nat \<Rightarrow> 'a option" where
  "lookup xs i = (if i < length xs then Some (xs ! i) else None)"

text \<open>
  The loop \<^verbatim>\<open>while (!bb.isEmpty()) { i = bb.extractLowestBitPosition(); ... }\<close> recurs in
  the source; \<open>bitIndices\<close> is the sequence of indices it visits.
\<close>

function bitIndices :: "bitboard \<Rightarrow> nat list" where
  "bitIndices bb =
     (if isEmpty bb then [] else getLowestBitPosition bb # bitIndices (popLowestBit bb))"
  by pat_completeness auto


lemma popLowestBit32_less: "v \<noteq> 0 \<Longrightarrow> unat (popLowestBit32 v) < unat (v :: 32 word)"
  unfolding popLowestBit32_def by (meson less_eq_dec_iff unat_mono word_and_le1)

termination bitIndices
proof (relation "measure (\<lambda>b. unat (low b) + unat (high b))")
  show "wf (measure (\<lambda>b. unat (low b) + unat (high b)))" by simp
next
  fix bb :: bitboard
  assume ne: "\<not> isEmpty bb"
  show "(popLowestBit bb, bb) \<in> measure (\<lambda>b. unat (low b) + unat (high b))"
  proof (cases "low bb = 0")
    case True
    with ne have "high bb \<noteq> 0" by (simp add: isEmpty_def)
    then show ?thesis using True popLowestBit32_less [of "high bb"]
      by (simp add: popLowestBit_def)
  next
    case False
    then show ?thesis using popLowestBit32_less [of "low bb"]
      by (simp add: popLowestBit_def)
  qed
qed

declare bitIndices.simps [simp del]

section \<open>Chess: pieces, colours, squares\<close>

text \<open>
  \<^verbatim>\<open>Chess.Piece\<close> and \<^verbatim>\<open>Chess.Move.Kind\<close> are numbers in the source and are used in
  arithmetic (array indices, bit fields of a move), so they stay numbers here.
\<close>

definition PAWN :: nat where [simp]: "PAWN = 0"
definition KNIGHT :: nat where [simp]: "KNIGHT = 1"
definition BISHOP :: nat where [simp]: "BISHOP = 2"
definition ROOK :: nat where [simp]: "ROOK = 3"
definition QUEEN :: nat where [simp]: "QUEEN = 4"
definition KING :: nat where [simp]: "KING = 5"

datatype color = WHITE | BLACK

fun cnum :: "color \<Rightarrow> nat" where
  "cnum WHITE = 0"
| "cnum BLACK = 1"

fun getOtherPieceColor :: "color \<Rightarrow> color" where
  "getOtherPieceColor WHITE = BLACK"
| "getOtherPieceColor BLACK = WHITE"

definition getFile :: "int \<Rightarrow> int" where
  "getFile index = index AND 7"

text \<open>\<^verbatim>\<open>ToUint32\<close>, the conversion \<^verbatim>\<open>index >>>= 0\<close> applies to a number.\<close>

definition u32 :: "int \<Rightarrow> nat" where
  "u32 i = nat (i mod 4294967296)"

section \<open>Move: a ply packed into one number\<close>

type_synonym move = "32 word"

definition POSITIONAL :: nat where [simp]: "POSITIONAL = 0"
definition DOUBLE_PAWN_PUSH :: nat where [simp]: "DOUBLE_PAWN_PUSH = 1"
definition KING_CASTLE :: nat where [simp]: "KING_CASTLE = 2"
definition QUEEN_CASTLE :: nat where [simp]: "QUEEN_CASTLE = 3"
definition CAPTURE :: nat where [simp]: "CAPTURE = 4"
definition EN_PASSANT_CAPTURE :: nat where [simp]: "EN_PASSANT_CAPTURE = 5"
definition KNIGHT_PROMOTION :: nat where [simp]: "KNIGHT_PROMOTION = 8"
definition BISHOP_PROMOTION :: nat where [simp]: "BISHOP_PROMOTION = 9"
definition ROOK_PROMOTION :: nat where [simp]: "ROOK_PROMOTION = 10"
definition QUEEN_PROMOTION :: nat where [simp]: "QUEEN_PROMOTION = 11"
definition KNIGHT_PROMOTION_CAPTURE :: nat where [simp]: "KNIGHT_PROMOTION_CAPTURE = 12"
definition BISHOP_PROMOTION_CAPTURE :: nat where [simp]: "BISHOP_PROMOTION_CAPTURE = 13"
definition ROOK_PROMOTION_CAPTURE :: nat where [simp]: "ROOK_PROMOTION_CAPTURE = 14"
definition QUEEN_PROMOTION_CAPTURE :: nat where [simp]: "QUEEN_PROMOTION_CAPTURE = 15"

text \<open>
  The constructor; \<^verbatim>\<open>capturedPiece\<close> may be \<^verbatim>\<open>null\<close> (\<open>None\<close>), which \<^verbatim>\<open>| 0\<close> turns
  into 0, the pawn.
\<close>

definition Move :: "int \<Rightarrow> int \<Rightarrow> nat \<Rightarrow> nat \<Rightarrow> nat option \<Rightarrow> move" where
  "Move from to kind piece capturedPiece =
     (word_of_int to AND 0x3F)
     OR push_bit 6 (word_of_int from AND 0x3F)
     OR push_bit 12 (word_of_nat kind AND 0xF)
     OR push_bit 16 (word_of_nat piece AND 0x7)
     OR push_bit 19 (word_of_nat (case capturedPiece of None \<Rightarrow> 0 | Some c \<Rightarrow> c) AND 0x7)"

definition getTo :: "move \<Rightarrow> nat" where
  "getTo m = unat (m AND 0x3F)"

definition getFrom :: "move \<Rightarrow> nat" where
  "getFrom m = unat (drop_bit 6 m AND 0x3F)"

definition getKind :: "move \<Rightarrow> nat" where
  "getKind m = unat (drop_bit 12 m AND 0xF)"

definition getPiece :: "move \<Rightarrow> nat" where
  "getPiece m = unat (drop_bit 16 m AND 0x7)"

definition isCapture :: "move \<Rightarrow> bool" where
  "isCapture m \<longleftrightarrow> getKind m AND 4 \<noteq> 0"

definition getCapturedPiece :: "move \<Rightarrow> nat" where
  "getCapturedPiece m = unat (drop_bit 19 m AND 0x7)"

definition isPromotion :: "move \<Rightarrow> bool" where
  "isPromotion m \<longleftrightarrow> getKind m AND 8 \<noteq> 0"

definition isCastle :: "move \<Rightarrow> bool" where
  "isCastle m \<longleftrightarrow> getKind m = KING_CASTLE \<or> getKind m = QUEEN_CASTLE"

definition getPromotedPiece :: "move \<Rightarrow> nat" where
  "getPromotedPiece m = (if isPromotion m then KNIGHT + (getKind m AND 3) else PAWN)"

definition getCaptureSquare :: "move \<Rightarrow> int" where
  "getCaptureSquare m =
     (if getKind m \<noteq> EN_PASSANT_CAPTURE then int (getTo m)
      else int (getTo m) + (if getFrom m < getTo m then - 8 else 8))"

section \<open>Zobrist: the incrementally updated hash\<close>

text \<open>
  \<^verbatim>\<open>Chess.Zobrist.RANDOM_VALUES\<close> is filled from \<^verbatim>\<open>Math.random()\<close> when the script
  loads, so its contents are a parameter \<open>rv\<close> of everything that touches the hash:
  \<open>rv i\<close> is what \<^verbatim>\<open>RANDOM_VALUES[i]\<close> contributes to an exclusive or.
\<close>

record zobrist =
  zlow :: "32 word"
  zhigh :: "32 word"

definition Position_TURN :: int where [simp]: "Position_TURN = 0"
definition Position_PIECE_COLOR_SQUARE :: int where [simp]: "Position_PIECE_COLOR_SQUARE = 2"
definition Position_CASTLING_RIGHTS :: int where [simp]: "Position_CASTLING_RIGHTS = 1538"
definition Position_EN_PASSANT_FILE :: int where [simp]: "Position_EN_PASSANT_FILE = 1570"

definition update :: "(int \<Rightarrow> 32 word) \<Rightarrow> zobrist \<Rightarrow> int \<Rightarrow> zobrist" where
  "update rv z position =
     \<lparr>zlow = zlow z XOR rv position, zhigh = zhigh z XOR rv (position + 1)\<rparr>"

definition updateTurn :: "(int \<Rightarrow> 32 word) \<Rightarrow> zobrist \<Rightarrow> zobrist" where
  "updateTurn rv z = update rv z Position_TURN"

definition updatePieceColorSquare ::
  "(int \<Rightarrow> 32 word) \<Rightarrow> zobrist \<Rightarrow> nat \<Rightarrow> color \<Rightarrow> int \<Rightarrow> zobrist" where
  "updatePieceColorSquare rv z piece color index =
     update rv z (Position_PIECE_COLOR_SQUARE + int piece + int (cnum color) * 6 + index * 6 * 2)"

definition updatePieceColorBitboard ::
  "(int \<Rightarrow> 32 word) \<Rightarrow> zobrist \<Rightarrow> nat \<Rightarrow> color \<Rightarrow> bitboard \<Rightarrow> zobrist" where
  "updatePieceColorBitboard rv z piece color bitboard =
     fold (\<lambda>index z'. updatePieceColorSquare rv z' piece color (int index)) (bitIndices bitboard) z"

definition updateCastlingRights :: "(int \<Rightarrow> 32 word) \<Rightarrow> zobrist \<Rightarrow> int \<Rightarrow> zobrist" where
  "updateCastlingRights rv z castlingRights = update rv z (Position_CASTLING_RIGHTS + castlingRights)"

definition updateEnPassantFile :: "(int \<Rightarrow> 32 word) \<Rightarrow> zobrist \<Rightarrow> int \<Rightarrow> zobrist" where
  "updateEnPassantFile rv z enPassantFile = update rv z (Position_EN_PASSANT_FILE + enPassantFile)"

definition updateEnPassantSquare :: "(int \<Rightarrow> 32 word) \<Rightarrow> zobrist \<Rightarrow> int \<Rightarrow> zobrist" where
  "updateEnPassantSquare rv z enPassantSquare =
     (if enPassantSquare \<ge> 0 then updateEnPassantFile rv z (getFile enPassantSquare) else z)"


section \<open>Position: the game state\<close>

text \<open>
  \<^verbatim>\<open>bitboards\<close> is the array of eight boards (six piece types, then white, then black);
  \<^verbatim>\<open>pieces\<close> is the lookup table, a JavaScript array read and written by index, kept
  here as a function from the index (\<open>None\<close> for \<^verbatim>\<open>null\<close> and for an absent entry).
  The arrays used as stacks are lists in array order: \<^verbatim>\<open>push\<close> appends.
  \<open>halfMoveClock\<close> is the property that \<^verbatim>\<open>unmakeMove\<close> assigns; the constructor does not
  create it, and nothing reads it.
\<close>

record position =
  hashKey :: zobrist
  bitboards :: "bitboard list"
  pieces :: "int \<Rightarrow> nat option"
  turn :: color
  castlingRights :: int
  enPassantSquare :: int
  halfmoveClock :: int
  madeMoves :: "move list"
  irreversibleHistory :: "int list"
  hashHistory :: "zobrist list"
  halfMoveClock :: "int option"

definition ANY_WHITE :: nat where [simp]: "ANY_WHITE = 6"
definition ANY_BLACK :: nat where [simp]: "ANY_BLACK = 7"

definition ROOK_INDICES :: "nat list" where
  "ROOK_INDICES = [7, 63, 0, 56]"

definition SLIDING_MASKS :: "bitboard list" where
  "SLIDING_MASKS = [not_bb (makeFile 7), ONE, not_bb (makeFile 0)]"

datatype status = NORMAL | CHECKMATE | STALEMATE_DRAW | FIFTY_MOVE_RULE_DRAW
  | THREEFOLD_REPETITION_RULE_DRAW | INSUFFICIENT_MATERIAL_DRAW

definition getColorBitboard :: "position \<Rightarrow> color \<Rightarrow> bitboard" where
  "getColorBitboard p color = bitboards p ! (ANY_WHITE + cnum color)"

definition getPieceBitboard :: "position \<Rightarrow> nat \<Rightarrow> bitboard" where
  "getPieceBitboard p piece = bitboards p ! piece"

definition getPieceColorBitboard :: "position \<Rightarrow> nat \<Rightarrow> color \<Rightarrow> bitboard" where
  "getPieceColorBitboard p piece color = and_bb (bitboards p ! piece) (getColorBitboard p color)"

definition getKingPosition :: "position \<Rightarrow> color \<Rightarrow> nat" where
  "getKingPosition p color = getLowestBitPosition (getPieceColorBitboard p KING color)"

definition getOccupiedBitboard :: "position \<Rightarrow> bitboard" where
  "getOccupiedBitboard p = or_bb (bitboards p ! ANY_WHITE) (bitboards p ! ANY_BLACK)"

definition getEmptyBitboard :: "position \<Rightarrow> bitboard" where
  "getEmptyBitboard p = not_bb (getOccupiedBitboard p)"

definition getTurnColor :: "position \<Rightarrow> color" where
  "getTurnColor p = turn p"

definition findPieceAtOrNull :: "position \<Rightarrow> nat \<Rightarrow> nat option" where
  "findPieceAtOrNull p index = find (\<lambda>piece. isSet (getPieceBitboard p piece) index) [PAWN..<KING + 1]"

definition getPieceAtOrNull :: "position \<Rightarrow> int \<Rightarrow> nat option" where
  "getPieceAtOrNull p index = pieces p index"

definition fillPiecesFromBitboards :: "position \<Rightarrow> position" where
  "fillPiecesFromBitboards p =
     p\<lparr>pieces := (\<lambda>index. if 0 \<le> index \<and> index < 64 then findPieceAtOrNull p (nat index) else None)\<rparr>"

definition updateHashKey :: "(int \<Rightarrow> 32 word) \<Rightarrow> position \<Rightarrow> position" where
  "updateHashKey rv p =
     (let z0 = \<lparr>zlow = 0, zhigh = 0\<rparr>;
          z1 = (if getTurnColor p \<noteq> WHITE then updateTurn rv z0 else z0);
          z2 = fold (\<lambda>color z. fold (\<lambda>piece z'.
                  updatePieceColorBitboard rv z' piece color (getPieceColorBitboard p piece color))
                  [PAWN..<KING + 1] z) [WHITE, BLACK] z1;
          z3 = updateCastlingRights rv z2 (castlingRights p)
      in p\<lparr>hashKey := updateEnPassantSquare rv z3 (enPassantSquare p)\<rparr>)"

definition makePawnAttackMask :: "color \<Rightarrow> bitboard \<Rightarrow> bitboard" where
  "makePawnAttackMask color pawns =
     (let white = (color = WHITE);
          attacks1 = shiftLeft (and_not pawns (FILES ! 0)) (if white then 7 else - 9);
          attacks2 = shiftLeft (and_not pawns (FILES ! 7)) (if white then 9 else - 7)
      in or_bb attacks1 attacks2)"


subsection \<open>Squares of a board, bit by bit\<close>


lemma isSet_iff: "i < 64 \<Longrightarrow> isSet b i \<longleftrightarrow> (if i < 32 then bit (low b) i else bit (high b) (i - 32))"
  by (auto simp add: isSet_def isClear_def bit_iff_and_push_bit_not_eq_0)

lemma bb_eqI: "(\<And>i. i < 64 \<Longrightarrow> isSet a i = isSet b i) \<Longrightarrow> a = (b::bitboard)"
proof -
  assume h: "\<And>i. i < 64 \<Longrightarrow> isSet a i = isSet b i"
  have "low a = low b"
  proof (rule bit_word_eqI)
    fix n assume "n < LENGTH(32)"
    then show "bit (low a) n = bit (low b) n" using h [of n] by (simp add: isSet_iff)
  qed
  moreover have "high a = high b"
  proof (rule bit_word_eqI)
    fix n assume "n < LENGTH(32)"
    then show "bit (high a) n = bit (high b) n" using h [of "n + 32"] by (simp add: isSet_iff)
  qed
  ultimately show ?thesis by simp
qed

lemma isSet_and [simp]: "i < 64 \<Longrightarrow> isSet (and_bb a b) i \<longleftrightarrow> isSet a i \<and> isSet b i"
  by (simp add: isSet_iff and_bb_def bit_simps)
lemma isSet_or [simp]: "i < 64 \<Longrightarrow> isSet (or_bb a b) i \<longleftrightarrow> isSet a i \<or> isSet b i"
  by (simp add: isSet_iff or_bb_def bit_simps)
lemma isSet_xor [simp]: "i < 64 \<Longrightarrow> isSet (xor_bb a b) i \<longleftrightarrow> isSet a i \<noteq> isSet b i"
  by (simp add: isSet_iff xor_bb_def bit_simps)
lemma isSet_and_not [simp]: "i < 64 \<Longrightarrow> isSet (and_not a b) i \<longleftrightarrow> isSet a i \<and> \<not> isSet b i"
  by (auto simp add: isSet_iff and_not_def bit_simps)
lemma isSet_not [simp]: "i < 64 \<Longrightarrow> isSet (not_bb a) i \<longleftrightarrow> \<not> isSet a i"
  by (auto simp add: isSet_iff not_bb_def bit_simps)
lemma isSet_setBit [simp]: "i < 64 \<Longrightarrow> j < 64 \<Longrightarrow> isSet (setBit a j) i \<longleftrightarrow> i = j \<or> isSet a i"
  by (auto simp add: isSet_iff setBit_def bit_simps)
lemma isSet_clearBit [simp]: "i < 64 \<Longrightarrow> j < 64 \<Longrightarrow> isSet (clearBit a j) i \<longleftrightarrow> i \<noteq> j \<and> isSet a i"
  by (auto simp add: isSet_iff clearBit_def bit_simps)
lemma isSet_makeZero [simp]: "i < 64 \<Longrightarrow> \<not> isSet makeZero i"
  by (simp add: isSet_iff makeZero_def makeBitboard_def)
lemma isSet_makeIndex [simp]: "i < 64 \<Longrightarrow> j < 64 \<Longrightarrow> isSet (makeIndex j) i \<longleftrightarrow> i = j"
  by (simp add: makeIndex_def)
lemma isEmpty_iff: "isEmpty b \<longleftrightarrow> (\<forall>i<64. \<not> isSet b i)"
proof
  assume "isEmpty b" then show "\<forall>i<64. \<not> isSet b i" by (simp add: isEmpty_def isSet_iff)
next
  assume h: "\<forall>i<64. \<not> isSet b i"
  have "b = makeZero" by (rule bb_eqI) (simp add: h)
  then show "isEmpty b" by (simp add: isEmpty_def makeZero_def makeBitboard_def)
qed


lemma bit32: "bit (w :: 32 word) n \<Longrightarrow> n < 32"
  by (auto dest: bit_imp_le_length)

lemma isSet_shl: "v < 64 \<Longrightarrow> i < 64 \<Longrightarrow> isSet (shl b v) i \<longleftrightarrow> v \<le> i \<and> isSet b (i - v)"
  by (auto simp add: isSet_iff shl_def bit_simps add.commute dest: bit32)


lemma isSet_shr: "v < 64 \<Longrightarrow> i < 64 \<Longrightarrow> isSet (shr b v) i \<longleftrightarrow> i + v < 64 \<and> isSet b (i + v)"
proof (cases "i + v < 64")
  case True
  assume "v < 64" "i < 64"
  with True show ?thesis
    by (auto simp add: isSet_iff shr_def bit_simps add.commute dest: bit32)
next
  case False
  assume "v < 64" "i < 64"
  with False show ?thesis
    by (auto simp add: isSet_iff shr_def bit_simps add.commute dest: bit32)
qed

lemma isSet_shiftLeft:
  "i < 64 \<Longrightarrow> isSet (shiftLeft b d) i \<longleftrightarrow> 0 \<le> int i - d \<and> int i - d < 64 \<and> isSet b (nat (int i - d))"
proof -
  assume i: "i < 64"
  consider "d > 63 \<or> d < - 63" | "0 < d" "d \<le> 63" | "d < 0" "- 63 \<le> d" | "d = 0" by linarith
  then show ?thesis
  proof cases
    case 1
    have "\<not> isSet \<lparr>low = 0, high = 0\<rparr> i" using i by (simp add: isSet_iff)
    with 1 i show ?thesis by (auto simp add: shiftLeft_def)
  next
    case 2
    then have "nat d < 64" by simp
    moreover from 2 have "i - nat d = nat (int i - d)" by linarith
    ultimately show ?thesis using 2 i by (auto simp add: shiftLeft_def isSet_shl nat_le_iff)
  next
    case 3
    then have "nat (- d) < 64" by simp
    moreover from 3 have "i + nat (- d) = nat (int i - d)" by linarith
    ultimately show ?thesis using 3 i by (auto simp add: shiftLeft_def isSet_shr)
  next
    case 4
    with i show ?thesis by (simp add: shiftLeft_def)
  qed
qed



subsection \<open>Attack masks\<close>

text \<open>
  The \<^verbatim>\<open>for\<close> loop of \<^verbatim>\<open>makeSlidingAttackMask\<close>: \<open>fromBB\<close> is the board after the
  initial or the stepping shift, \<open>bb\<close> the accumulated mask.  The condition
  \<^verbatim>\<open>!fromBB.and(mask).isEmpty()\<close> also stores the masked board in \<^verbatim>\<open>fromBB\<close>.
  The source calls it with the eight king directions only; for direction 0 the
  JavaScript loop may not end, and the guard \<open>direction = 0\<close> keeps the definition total.
\<close>
function slide :: "bitboard \<Rightarrow> bitboard \<Rightarrow> bitboard \<Rightarrow> int \<Rightarrow> bitboard \<Rightarrow> bitboard" where
  "slide fromBB occupied msk direction bb =
     (let f = and_bb fromBB msk
      in if direction = 0 \<or> isEmpty f then bb
         else slide (shiftLeft (and_not f occupied) direction) occupied msk direction (or_bb bb f))"
  by pat_completeness auto

definition upward :: "bitboard \<Rightarrow> nat set" where
  "upward x = {i. i < 64 \<and> (\<exists>j\<le>i. isSet x j)}"

definition downward :: "bitboard \<Rightarrow> nat set" where
  "downward x = {i. i < 64 \<and> (\<exists>j\<ge>i. j < 64 \<and> isSet x j)}"

lemma upward_step:
  assumes d: "0 < d" and ne: "\<not> isEmpty (and_bb x m)"
  shows "upward (shiftLeft (and_not (and_bb x m) occ) d) \<subset> upward x"
proof -
  let ?y = "shiftLeft (and_not (and_bb x m) occ) d"
  from ne obtain k where k: "k < 64" "isSet x k" by (auto simp add: isEmpty_iff)
  define l where "l = (LEAST k. k < 64 \<and> isSet x k)"
  have l: "l < 64 \<and> isSet x l" unfolding l_def by (rule LeastI [of _ k]) (simp add: k)
  have least: "\<And>j. j < 64 \<Longrightarrow> isSet x j \<Longrightarrow> l \<le> j" unfolding l_def by (simp add: Least_le)
  have sub: "upward ?y \<subseteq> upward x"
  proof
    fix i assume "i \<in> upward ?y"
    then obtain j where j: "i < 64" "j \<le> i" "isSet ?y j" by (auto simp add: upward_def)
    then have "isSet x (nat (int j - d))" "nat (int j - d) \<le> i" using d by (auto simp add: isSet_shiftLeft)
    with j show "i \<in> upward x" by (auto simp add: upward_def)
  qed
  have "l \<in> upward x" using l by (auto simp add: upward_def)
  moreover have "l \<notin> upward ?y"
  proof
    assume "l \<in> upward ?y"
    then obtain j where j: "j \<le> l" "isSet ?y j" by (auto simp add: upward_def)
    with l have "isSet x (nat (int j - d))" "0 \<le> int j - d" by (auto simp add: isSet_shiftLeft)
    moreover have "nat (int j - d) < l" using j d \<open>0 \<le> int j - d\<close> by linarith
    ultimately show False using least [of "nat (int j - d)"] l by simp
  qed
  ultimately show ?thesis using sub by blast
qed

lemma downward_step:
  assumes d: "d < 0" and ne: "\<not> isEmpty (and_bb x m)"
  shows "downward (shiftLeft (and_not (and_bb x m) occ) d) \<subset> downward x"
proof -
  let ?y = "shiftLeft (and_not (and_bb x m) occ) d"
  let ?S = "{k. k < 64 \<and> isSet x k}"
  from ne have neS: "?S \<noteq> {}" by (auto simp add: isEmpty_iff)
  have fin: "finite ?S" by simp
  define l where "l = Max ?S"
  have l: "l < 64 \<and> isSet x l" using Max_in [OF fin neS] by (simp add: l_def)
  have greatest: "\<And>j. j < 64 \<Longrightarrow> isSet x j \<Longrightarrow> j \<le> l" unfolding l_def using fin by (simp add: Max_ge)
  have sub: "downward ?y \<subseteq> downward x"
  proof
    fix i assume "i \<in> downward ?y"
    then obtain j where j: "i < 64" "i \<le> j" "j < 64" "isSet ?y j" by (auto simp add: downward_def)
    then have "isSet x (nat (int j - d))" "i \<le> nat (int j - d)" "nat (int j - d) < 64" using d by (auto simp add: isSet_shiftLeft)
    with j show "i \<in> downward x" by (auto simp add: downward_def)
  qed
  have "l \<in> downward x" using l by (auto simp add: downward_def)
  moreover have "l \<notin> downward ?y"
  proof
    assume "l \<in> downward ?y"
    then obtain j where j: "l \<le> j" "j < 64" "isSet ?y j" by (auto simp add: downward_def)
    then have "isSet x (nat (int j - d))" "int j - d < 64" by (auto simp add: isSet_shiftLeft)
    moreover have "l < nat (int j - d)" using j d by linarith
    ultimately show False using greatest [of "nat (int j - d)"] by linarith
  qed
  ultimately show ?thesis using sub by blast
qed

termination slide
proof (relation "measure (\<lambda>(x, occ, m, d, bb). if 0 < d then card (upward x) else card (downward x))")
  show "wf (measure (\<lambda>(x, occ, m, d, bb). if 0 < d then card (upward x) else card (downward x)))" by simp
next
  fix fromBB occupied msk :: bitboard and direction :: int and bb f :: bitboard
  assume f: "f = and_bb fromBB msk" and c: "\<not> (direction = 0 \<or> isEmpty f)"
  have fu: "finite (upward fromBB)" and fd: "finite (downward fromBB)"
    by (simp_all add: upward_def downward_def)
  show "((shiftLeft (and_not f occupied) direction, occupied, msk, direction, or_bb bb f),
         fromBB, occupied, msk, direction, bb)
        \<in> measure (\<lambda>(x, occ, m, d, bb). if 0 < d then card (upward x) else card (downward x))"
  proof (cases "0 < direction")
    case True
    with c f show ?thesis
      using psubset_card_mono [OF fu upward_step [of direction fromBB msk occupied]] by simp
  next
    case False
    with c have "direction < 0" by simp
    with c f False show ?thesis
      using psubset_card_mono [OF fd downward_step [of direction fromBB msk occupied]] by simp
  qed
qed

declare slide.simps [simp del]

definition makeSlidingAttackMask :: "bitboard \<Rightarrow> bitboard \<Rightarrow> int \<Rightarrow> int \<Rightarrow> bitboard" where
  "makeSlidingAttackMask fromBB occupied rankDirection fileDirection =
     (let direction = rankDirection * 8 + fileDirection;
          msk = SLIDING_MASKS ! nat (1 + fileDirection)
      in slide (shiftLeft fromBB direction) occupied msk direction makeZero)"

definition makeBishopAttackMask :: "bitboard \<Rightarrow> bitboard \<Rightarrow> bitboard" where
  "makeBishopAttackMask fromBB occupied =
     or_bb (or_bb (or_bb (makeSlidingAttackMask fromBB occupied 1 1)
                         (makeSlidingAttackMask fromBB occupied 1 (- 1)))
                  (makeSlidingAttackMask fromBB occupied (- 1) 1))
           (makeSlidingAttackMask fromBB occupied (- 1) (- 1))"

definition makeRookAttackMask :: "bitboard \<Rightarrow> bitboard \<Rightarrow> bitboard" where
  "makeRookAttackMask fromBB occupied =
     or_bb (or_bb (or_bb (makeSlidingAttackMask fromBB occupied 0 1)
                         (makeSlidingAttackMask fromBB occupied 0 (- 1)))
                  (makeSlidingAttackMask fromBB occupied 1 0))
           (makeSlidingAttackMask fromBB occupied (- 1) 0)"

text \<open>
  \<open>isAttacked\<close> reads the knight and king tables at \<open>index\<close>; outside 0..63 that is a
  TypeError (\<open>None\<close>), unless the pawn test has answered before.
\<close>

definition isAttacked :: "position \<Rightarrow> color \<Rightarrow> nat \<Rightarrow> bool option" where
  "isAttacked p color index =
     (let pawns = getPieceColorBitboard p PAWN color
      in if isSet (makePawnAttackMask color pawns) index then Some True
         else
           let knights = getPieceColorBitboard p KNIGHT color
           in case lookup KNIGHT_MOVEMENTS index of
                None \<Rightarrow> None
              | Some knightMoves \<Rightarrow>
                  if \<not> isEmpty (and_bb knightMoves knights) then Some True
                  else
                    let king = getPieceColorBitboard p KING color
                    in case lookup KING_MOVEMENTS index of
                         None \<Rightarrow> None
                       | Some kingMoves \<Rightarrow>
                           if \<not> isEmpty (and_bb kingMoves king) then Some True
                           else
                             let occupied = getOccupiedBitboard p;
                                 queens = getPieceColorBitboard p QUEEN color;
                                 bq = or_bb (getPieceColorBitboard p BISHOP color) queens
                             in if isSet (makeBishopAttackMask bq occupied) index then Some True
                                else
                                  let rq = or_bb (getPieceColorBitboard p ROOK color) queens
                                  in if isSet (makeRookAttackMask rq occupied) index then Some True
                                     else Some False)"

definition isKingInCheck :: "position \<Rightarrow> bool option" where
  "isKingInCheck p =
     isAttacked p (getOtherPieceColor (getTurnColor p)) (getKingPosition p (getTurnColor p))"

subsection \<open>Castling rights, en passant, draws\<close>

definition getCastlingIndex :: "color \<Rightarrow> bool \<Rightarrow> nat" where
  "getCastlingIndex color kingSide = cnum color + (if kingSide then 0 else 2)"

definition getCastlingRookSquare :: "color \<Rightarrow> bool \<Rightarrow> nat" where
  "getCastlingRookSquare color kingSide = ROOK_INDICES ! getCastlingIndex color kingSide"

definition hasCastlingRight :: "position \<Rightarrow> color \<Rightarrow> bool \<Rightarrow> bool" where
  "hasCastlingRight p color kingSide \<longleftrightarrow>
     castlingRights p AND push_bit (getCastlingIndex color kingSide) 1 \<noteq> 0"

definition clearCastlingRight :: "(int \<Rightarrow> 32 word) \<Rightarrow> position \<Rightarrow> color \<Rightarrow> bool \<Rightarrow> position" where
  "clearCastlingRight rv p color kingSide =
     (let z1 = updateCastlingRights rv (hashKey p) (castlingRights p);
          rights = castlingRights p AND NOT (push_bit (getCastlingIndex color kingSide) 1)
      in p\<lparr>castlingRights := rights, hashKey := updateCastlingRights rv z1 rights\<rparr>)"

definition isCastlingLegal :: "position \<Rightarrow> color \<Rightarrow> bool \<Rightarrow> bool option" where
  "isCastlingLegal p color kingSide =
     (let otherColor = getOtherPieceColor color;
          direction = (if kingSide then 1 else - 1) :: int;
          kingPosition = (if color = WHITE then 4 else 60) :: int
      in do {
        a0 \<leftarrow> isAttacked p otherColor (u32 kingPosition);
        if a0 then Some False
        else do {
          a1 \<leftarrow> isAttacked p otherColor (u32 (kingPosition + direction));
          if a1 then Some False
          else do {
            a2 \<leftarrow> isAttacked p otherColor (u32 (kingPosition + 2 * direction));
            Some (\<not> a2)
          }
        }
      })"

definition canCastle :: "position \<Rightarrow> color \<Rightarrow> bool \<Rightarrow> bool \<Rightarrow> bool option" where
  "canCastle p color kingSide onlyLegal =
     (if \<not> hasCastlingRight p color kingSide then Some False
      else
        let direction = (if kingSide then 1 else - 1) :: int;
            kingPosition = (if color = WHITE then 4 else 60) :: int;
            occupied = getOccupiedBitboard p
        in if isSet occupied (u32 (kingPosition + direction))
              \<or> isSet occupied (u32 (kingPosition + 2 * direction)) then Some False
           else if \<not> kingSide \<and> isSet occupied (u32 (kingPosition + 3 * direction)) then Some False
           else if onlyLegal then do {
             legal \<leftarrow> isCastlingLegal p color kingSide;
             if \<not> legal then Some False else Some True
           }
           else Some True)"

definition getEnPassantSquare :: "position \<Rightarrow> int" where
  "getEnPassantSquare p = enPassantSquare p"

definition canEnPassant :: "position \<Rightarrow> bool" where
  "canEnPassant p \<longleftrightarrow> getEnPassantSquare p \<ge> 0"

definition isFiftyMoveRuleDraw :: "position \<Rightarrow> bool" where
  "isFiftyMoveRuleDraw p \<longleftrightarrow> halfmoveClock p \<ge> 100"

definition zobrist_isEqual :: "zobrist \<Rightarrow> zobrist \<Rightarrow> bool" where
  "zobrist_isEqual z other \<longleftrightarrow> zlow z = zlow other \<and> zhigh z = zhigh other"

definition isThreefoldRepetitionRuleDraw :: "position \<Rightarrow> bool" where
  "isThreefoldRepetitionRuleDraw p =
     (let currentHashKey = hashKey p
      in foldl (\<lambda>previousValue currentValue.
                  previousValue + (if zobrist_isEqual currentValue currentHashKey then 1 else 0))
           (0 :: nat) (hashHistory p) \<ge> 3)"

definition isInsufficientMaterialDraw :: "position \<Rightarrow> bool" where
  "isInsufficientMaterialDraw p =
     (if \<not> isEmpty (getPieceBitboard p PAWN) then False
      else if \<not> isEmpty (getPieceBitboard p ROOK) then False
      else if \<not> isEmpty (getPieceBitboard p QUEEN) then False
      else
        let whiteCount = popcnt (getColorBitboard p WHITE);
            blackCount = popcnt (getColorBitboard p BLACK)
        in if whiteCount + blackCount < 4 then True
           else if \<not> isEmpty (getPieceBitboard p KNIGHT) then False
           else
             let bishops = getPieceBitboard p BISHOP
             in if isEqual (and_bb bishops LIGHT_SQUARES) bishops
                   \<or> isEqual (and_bb bishops DARK_SQUARES) bishops then True
                else False)"

definition isDraw :: "position \<Rightarrow> bool" where
  "isDraw p \<longleftrightarrow> isFiftyMoveRuleDraw p \<or> isThreefoldRepetitionRuleDraw p \<or> isInsufficientMaterialDraw p"


subsection \<open>Pseudo-legal move generation\<close>

definition addPawnMoves :: "position \<Rightarrow> bitboard \<Rightarrow> int \<Rightarrow> nat \<Rightarrow> move list" where
  "addPawnMoves p toMask movement kind =
     map (\<lambda>index. Move (int index - movement) (int index) kind PAWN (getPieceAtOrNull p (int index)))
       (bitIndices toMask)"

definition addPawnPromotions :: "position \<Rightarrow> bitboard \<Rightarrow> int \<Rightarrow> bool \<Rightarrow> move list" where
  "addPawnPromotions p toMask movement capture =
     addPawnMoves p toMask movement (if capture then QUEEN_PROMOTION_CAPTURE else QUEEN_PROMOTION)
     @ addPawnMoves p toMask movement (if capture then ROOK_PROMOTION_CAPTURE else ROOK_PROMOTION)
     @ addPawnMoves p toMask movement (if capture then BISHOP_PROMOTION_CAPTURE else BISHOP_PROMOTION)
     @ addPawnMoves p toMask movement (if capture then KNIGHT_PROMOTION_CAPTURE else KNIGHT_PROMOTION)"

definition addNormalMoves :: "position \<Rightarrow> bitboard \<Rightarrow> nat \<Rightarrow> bitboard \<Rightarrow> nat \<Rightarrow> move list" where
  "addNormalMoves p opponentBB from toMask piece =
     map (\<lambda>to. Move (int from) (int to) (if isSet opponentBB to then CAPTURE else POSITIONAL) piece
                  (getPieceAtOrNull p (int to)))
       (bitIndices toMask)"

text \<open>
  The moves are appended in the order of the source.  The king table is read at the
  king's position, which is 64 when the side to move has no king: a TypeError, \<open>None\<close>.
\<close>

definition generateMoves :: "position \<Rightarrow> bool \<Rightarrow> move list option" where
  "generateMoves p onlyCaptures =
     (let turnColor = getTurnColor p;
          opponentBB = getColorBitboard p (getOtherPieceColor turnColor);
          occupied = getOccupiedBitboard p;
          fileDirection = 1 - 2 * int (cnum turnColor);
          rankDirection = 8 * fileDirection;
          turnPawns = getPieceColorBitboard p PAWN turnColor;
          lastRow = RANKS ! (if turnColor \<noteq> WHITE then 0 else 7);
          quiet =
            (if \<not> onlyCaptures then
               let doublePawnPushed =
                     and_not (and_not (shiftLeft (and_bb turnPawns (RANKS ! (if turnColor \<noteq> WHITE then 6 else 1)))
                                         (2 * rankDirection)) occupied)
                       (shiftLeft occupied rankDirection);
                   positionalPawnMoved = and_not (shiftLeft turnPawns rankDirection) occupied
               in addPawnMoves p doublePawnPushed (2 * rankDirection) DOUBLE_PAWN_PUSH
                  @ addPawnMoves p (and_not positionalPawnMoved lastRow) rankDirection POSITIONAL
                  @ addPawnPromotions p (and_bb positionalPawnMoved lastRow) rankDirection False
             else []);
          leftFile = FILES ! (if turnColor \<noteq> WHITE then 7 else 0);
          leftCaptureMovement = rankDirection - fileDirection;
          pawnLeftCaptured = and_bb (shiftLeft (and_not turnPawns leftFile) leftCaptureMovement) opponentBB;
          rightFile = FILES ! (if turnColor \<noteq> WHITE then 0 else 7);
          rightCaptureMovement = rankDirection + fileDirection;
          pawnRightCaptured = and_bb (shiftLeft (and_not turnPawns rightFile) rightCaptureMovement) opponentBB;
          pawnCaptures =
            addPawnMoves p (and_not pawnLeftCaptured lastRow) leftCaptureMovement CAPTURE
            @ addPawnPromotions p (and_bb pawnLeftCaptured lastRow) leftCaptureMovement True
            @ addPawnMoves p (and_not pawnRightCaptured lastRow) rightCaptureMovement CAPTURE
            @ addPawnPromotions p (and_bb pawnRightCaptured lastRow) rightCaptureMovement True;
          enPassant =
            (if canEnPassant p then
               let pawnLeftEnPassant =
                     shiftLeft (and_not (and_bb (makeIndex (u32 (getEnPassantSquare p + fileDirection))) turnPawns)
                                  leftFile) leftCaptureMovement;
                   pawnRightEnPassant =
                     shiftLeft (and_not (and_bb (makeIndex (u32 (getEnPassantSquare p - fileDirection))) turnPawns)
                                  rightFile) rightCaptureMovement
               in addPawnMoves p pawnLeftEnPassant leftCaptureMovement EN_PASSANT_CAPTURE
                  @ addPawnMoves p pawnRightEnPassant rightCaptureMovement EN_PASSANT_CAPTURE
             else []);
          mask0 = not_bb (getColorBitboard p turnColor);
          msk = (if onlyCaptures then and_bb mask0 opponentBB else mask0);
          knights =
            concat (map (\<lambda>knightPosition.
                      addNormalMoves p opponentBB knightPosition
                        (and_bb (KNIGHT_MOVEMENTS ! knightPosition) msk) KNIGHT)
                    (bitIndices (getPieceColorBitboard p KNIGHT turnColor)));
          queens =
            concat (map (\<lambda>queenPosition.
                      addNormalMoves p opponentBB queenPosition
                        (and_bb (or_bb (makeBishopAttackMask (makeIndex queenPosition) occupied)
                                       (makeRookAttackMask (makeIndex queenPosition) occupied)) msk) QUEEN)
                    (bitIndices (getPieceColorBitboard p QUEEN turnColor)));
          bishops =
            concat (map (\<lambda>bishopPosition.
                      addNormalMoves p opponentBB bishopPosition
                        (and_bb (makeBishopAttackMask (makeIndex bishopPosition) occupied) msk) BISHOP)
                    (bitIndices (getPieceColorBitboard p BISHOP turnColor)));
          rooks =
            concat (map (\<lambda>rookPosition.
                      addNormalMoves p opponentBB rookPosition
                        (and_bb (makeRookAttackMask (makeIndex rookPosition) occupied) msk) ROOK)
                    (bitIndices (getPieceColorBitboard p ROOK turnColor)));
          kingPosition = getKingPosition p turnColor
      in case lookup KING_MOVEMENTS kingPosition of
           None \<Rightarrow> None
         | Some kingMoves \<Rightarrow>
             let king = addNormalMoves p opponentBB kingPosition (and_bb kingMoves msk) KING
             in if \<not> onlyCaptures then do {
                  kingCastle \<leftarrow> canCastle p turnColor True True;
                  queenCastle \<leftarrow> canCastle p turnColor False True;
                  Some (quiet @ pawnCaptures @ enPassant @ knights @ queens @ bishops @ rooks @ king
                        @ (if kingCastle
                           then [Move (int kingPosition) (int kingPosition + 2) KING_CASTLE KING None]
                           else [])
                        @ (if queenCastle
                           then [Move (int kingPosition) (int kingPosition - 2) QUEEN_CASTLE KING None]
                           else []))
                }
                else Some (quiet @ pawnCaptures @ enPassant @ knights @ queens @ bishops @ rooks @ king))"

subsection \<open>Changing the pieces\<close>

definition capturePiece :: "(int \<Rightarrow> 32 word) \<Rightarrow> position \<Rightarrow> nat \<Rightarrow> color \<Rightarrow> int \<Rightarrow> position" where
  "capturePiece rv p piece color index =
     (let b1 = (bitboards p)[piece := clearBit (bitboards p ! piece) (u32 index)];
          b2 = b1[ANY_WHITE + cnum color := clearBit (b1 ! (ANY_WHITE + cnum color)) (u32 index)]
      in p\<lparr>bitboards := b2, pieces := (pieces p)(index := None),
            hashKey := updatePieceColorSquare rv (hashKey p) piece color index\<rparr>)"

definition unCapturePiece :: "(int \<Rightarrow> 32 word) \<Rightarrow> position \<Rightarrow> nat \<Rightarrow> color \<Rightarrow> int \<Rightarrow> position" where
  "unCapturePiece rv p piece color index =
     (let b1 = (bitboards p)[piece := setBit (bitboards p ! piece) (u32 index)];
          b2 = b1[ANY_WHITE + cnum color := setBit (b1 ! (ANY_WHITE + cnum color)) (u32 index)]
      in p\<lparr>bitboards := b2, pieces := (pieces p)(index := Some piece),
            hashKey := updatePieceColorSquare rv (hashKey p) piece color index\<rparr>)"

definition movePiece :: "(int \<Rightarrow> 32 word) \<Rightarrow> position \<Rightarrow> nat \<Rightarrow> color \<Rightarrow> nat \<Rightarrow> nat \<Rightarrow> position" where
  "movePiece rv p piece color from to =
     (let fromToBB = or_bb (makeIndex from) (makeIndex to);
          b1 = (bitboards p)[piece := xor_bb (bitboards p ! piece) fromToBB];
          b2 = b1[ANY_WHITE + cnum color := xor_bb (b1 ! (ANY_WHITE + cnum color)) fromToBB]
      in p\<lparr>bitboards := b2, pieces := (pieces p)(int from := None, int to := Some piece),
            hashKey := updatePieceColorSquare rv
                         (updatePieceColorSquare rv (hashKey p) piece color (int from))
                         piece color (int to)\<rparr>)"

definition castleRook :: "(int \<Rightarrow> 32 word) \<Rightarrow> position \<Rightarrow> color \<Rightarrow> bool \<Rightarrow> position" where
  "castleRook rv p color kingSide =
     (let from = int (getCastlingRookSquare color kingSide);
          to = from + (if kingSide then - 2 else 3)
      in movePiece rv p ROOK color (u32 from) (u32 to))"

definition unCastleRook :: "(int \<Rightarrow> 32 word) \<Rightarrow> position \<Rightarrow> color \<Rightarrow> bool \<Rightarrow> position" where
  "unCastleRook rv p color kingSide =
     (let to = int (getCastlingRookSquare color kingSide);
          from = to + (if kingSide then - 2 else 3)
      in movePiece rv p ROOK color (u32 from) (u32 to))"

definition promotePiece :: "(int \<Rightarrow> 32 word) \<Rightarrow> position \<Rightarrow> nat \<Rightarrow> nat \<Rightarrow> color \<Rightarrow> nat \<Rightarrow> position" where
  "promotePiece rv p pieceOld pieceNew color index =
     (let b1 = (bitboards p)[pieceOld := clearBit (bitboards p ! pieceOld) index];
          b2 = b1[pieceNew := setBit (b1 ! pieceNew) index]
      in p\<lparr>bitboards := b2, pieces := (pieces p)(int index := Some pieceNew),
            hashKey := updatePieceColorSquare rv
                         (updatePieceColorSquare rv (hashKey p) pieceOld color (int index))
                         pieceNew color (int index)\<rparr>)"

definition updatePieces :: "(int \<Rightarrow> 32 word) \<Rightarrow> position \<Rightarrow> move \<Rightarrow> position" where
  "updatePieces rv p mv =
     (let p1 = (if isCapture mv
                then capturePiece rv p (getCapturedPiece mv) (getOtherPieceColor (getTurnColor p))
                       (getCaptureSquare mv)
                else p);
          p2 = (if isCastle mv then castleRook rv p1 (getTurnColor p1) (getKind mv = KING_CASTLE) else p1);
          p3 = movePiece rv p2 (getPiece mv) (getTurnColor p2) (getFrom mv) (getTo mv)
      in if isPromotion mv
         then promotePiece rv p3 PAWN (getPromotedPiece mv) (getTurnColor p3) (getTo mv)
         else p3)"

definition revertPieces :: "(int \<Rightarrow> 32 word) \<Rightarrow> position \<Rightarrow> move \<Rightarrow> position" where
  "revertPieces rv p mv =
     (let p1 = (if isPromotion mv
                then promotePiece rv p (getPromotedPiece mv) PAWN (getTurnColor p) (getTo mv)
                else p);
          p2 = movePiece rv p1 (getPiece mv) (getTurnColor p1) (getTo mv) (getFrom mv);
          p3 = (if isCastle mv then unCastleRook rv p2 (getTurnColor p2) (getKind mv = KING_CASTLE) else p2)
      in if isCapture mv
         then unCapturePiece rv p3 (getCapturedPiece mv) (getOtherPieceColor (getTurnColor p3))
                (getCaptureSquare mv)
         else p3)"


subsection \<open>Legality, making and unmaking a move\<close>

definition isMoveLegal :: "(int \<Rightarrow> 32 word) \<Rightarrow> position \<Rightarrow> move \<Rightarrow> (bool \<times> position) option" where
  "isMoveLegal rv p mv =
     (let p1 = updatePieces rv p mv
      in do {
        kingInCheck \<leftarrow> isKingInCheck p1;
        Some (\<not> kingInCheck, revertPieces rv p1 mv)
      })"

text \<open>\<^verbatim>\<open>moves.filter(isMoveLegal, this)\<close>: the test changes and restores the position.\<close>

fun filterLegal :: "(int \<Rightarrow> 32 word) \<Rightarrow> position \<Rightarrow> move list \<Rightarrow> (move list \<times> position) option" where
  "filterLegal rv p [] = Some ([], p)"
| "filterLegal rv p (mv # rest) =
     do {
       (legal, p1) \<leftarrow> isMoveLegal rv p mv;
       (kept, p2) \<leftarrow> filterLegal rv p1 rest;
       Some (if legal then mv # kept else kept, p2)
     }"

definition getMoves ::
  "(int \<Rightarrow> 32 word) \<Rightarrow> position \<Rightarrow> bool \<Rightarrow> bool \<Rightarrow> (move list \<times> position) option" where
  "getMoves rv p pseudoLegal onlyCaptures =
     do {
       moves \<leftarrow> generateMoves p onlyCaptures;
       if pseudoLegal then Some (moves, p) else filterLegal rv p moves
     }"

text \<open>
  \<^verbatim>\<open>Array.prototype.pop\<close> whose value is used: on an empty array JavaScript yields
  \<^verbatim>\<open>undefined\<close>, which the fields of a position are not meant to hold; \<open>None\<close>.
\<close>

definition pop :: "'a list \<Rightarrow> ('a \<times> 'a list) option" where
  "pop xs = (if xs = [] then None else Some (last xs, butlast xs))"

definition makeMove :: "(int \<Rightarrow> 32 word) \<Rightarrow> position \<Rightarrow> move \<Rightarrow> (bool \<times> position) option" where
  "makeMove rv p mv =
     (let p0 = p\<lparr>hashHistory := hashHistory p @ [hashKey p]\<rparr>;
          p1 = updatePieces rv p0 mv
      in do {
        kingInCheck \<leftarrow> isKingInCheck p1;
        if kingInCheck then
          let p2 = revertPieces rv p1 mv
          in Some (False, p2\<lparr>hashHistory := butlast (hashHistory p2)\<rparr>)
        else
          let p2 = p1\<lparr>madeMoves := madeMoves p1 @ [mv],
                      irreversibleHistory := irreversibleHistory p1
                        @ [enPassantSquare p1, castlingRights p1, halfmoveClock p1]\<rparr>;
              z1 = updateEnPassantSquare rv (hashKey p2) (enPassantSquare p2);
              ep = (if getKind mv = DOUBLE_PAWN_PUSH then int (getTo mv) else - 1);
              p3 = p2\<lparr>enPassantSquare := ep, hashKey := updateEnPassantSquare rv z1 ep\<rparr>;
              turnColor = getTurnColor p3;
              p4 = (if getPiece mv = KING
                    then clearCastlingRight rv (clearCastlingRight rv p3 turnColor True) turnColor False
                    else if getPiece mv = ROOK then
                      (if getFrom mv = getCastlingRookSquare turnColor True
                       then clearCastlingRight rv p3 turnColor True
                       else if getFrom mv = getCastlingRookSquare turnColor False
                       then clearCastlingRight rv p3 turnColor False
                       else p3)
                    else p3);
              otherColor = getOtherPieceColor turnColor;
              p5 = (if getCapturedPiece mv = ROOK then
                      (if getCaptureSquare mv = int (getCastlingRookSquare otherColor True)
                       then clearCastlingRight rv p4 otherColor True
                       else if getCaptureSquare mv = int (getCastlingRookSquare otherColor False)
                       then clearCastlingRight rv p4 otherColor False
                       else p4)
                    else p4);
              p6 = (if isCapture mv \<or> getPiece mv = PAWN
                    then p5\<lparr>halfmoveClock := 0\<rparr>
                    else p5\<lparr>halfmoveClock := halfmoveClock p5 + 1\<rparr>)
          in Some (True, p6\<lparr>turn := otherColor, hashKey := updateTurn rv (hashKey p6)\<rparr>)
      })"

definition getMadeMoveCount :: "position \<Rightarrow> nat" where
  "getMadeMoveCount p = length (madeMoves p)"

definition canUndo :: "position \<Rightarrow> bool" where
  "canUndo p \<longleftrightarrow> getMadeMoveCount p \<noteq> 0"

definition getLastMove :: "position \<Rightarrow> move option" where
  "getLastMove p = (if \<not> canUndo p then None else Some (madeMoves p ! (length (madeMoves p) - 1)))"

definition unmakeMove :: "(int \<Rightarrow> 32 word) \<Rightarrow> position \<Rightarrow> (move option \<times> position) option" where
  "unmakeMove rv p =
     (if \<not> canUndo p then Some (None, p)
      else do {
        (mv, moves) \<leftarrow> pop (madeMoves p);
        let p1 = p\<lparr>madeMoves := moves, turn := getOtherPieceColor (getTurnColor p)\<rparr>;
        let p2 = revertPieces rv (p1\<lparr>hashKey := updateTurn rv (hashKey p1)\<rparr>) mv;
        (clock, h1) \<leftarrow> pop (irreversibleHistory p2);
        let z1 = updateCastlingRights rv (hashKey p2) (castlingRights p2);
        (rights, h2) \<leftarrow> pop h1;
        let z2 = updateEnPassantSquare rv (updateCastlingRights rv z1 rights) (enPassantSquare p2);
        (ep, h3) \<leftarrow> pop h2;
        Some (Some mv,
              p2\<lparr>halfMoveClock := Some clock, castlingRights := rights, enPassantSquare := ep,
                 irreversibleHistory := h3, hashKey := updateEnPassantSquare rv z2 ep,
                 hashHistory := butlast (hashHistory p2)\<rparr>)
      })"

subsection \<open>The constructor, perft and the status\<close>

definition Position :: "(int \<Rightarrow> 32 word) \<Rightarrow> position" where
  "Position rv =
     (let p0 = \<lparr>hashKey = \<lparr>zlow = 0, zhigh = 0\<rparr>,
                bitboards =
                  [or_bb (RANKS ! 1) (RANKS ! 6),
                   or_bb (or_bb (or_bb (makeIndex 1) (makeIndex 6)) (makeIndex 57)) (makeIndex 62),
                   or_bb (or_bb (or_bb (makeIndex 2) (makeIndex 5)) (makeIndex 58)) (makeIndex 61),
                   or_bb (or_bb (or_bb (makeIndex 0) (makeIndex 7)) (makeIndex 56)) (makeIndex 63),
                   or_bb (makeIndex 3) (makeIndex 59),
                   or_bb (makeIndex 4) (makeIndex 60),
                   or_bb (RANKS ! 0) (RANKS ! 1),
                   or_bb (RANKS ! 6) (RANKS ! 7)],
                pieces = (\<lambda>index. None),
                turn = WHITE,
                castlingRights = 15,
                enPassantSquare = - 1,
                halfmoveClock = 0,
                madeMoves = [],
                irreversibleHistory = [],
                hashHistory = [],
                halfMoveClock = None\<rparr>
      in updateHashKey rv (fillPiecesFromBitboards p0))"

text \<open>
  \<^verbatim>\<open>perft(depth, chessPosition)\<close> for a depth that is a natural number; \<open>perftLoop\<close> is the
  \<^verbatim>\<open>forEach\<close> over the pseudo-legal moves, with the count so far.
\<close>

fun perft :: "(int \<Rightarrow> 32 word) \<Rightarrow> nat \<Rightarrow> position \<Rightarrow> (nat \<times> position) option"
  and perftLoop :: "(int \<Rightarrow> 32 word) \<Rightarrow> nat \<Rightarrow> move list \<Rightarrow> position \<Rightarrow> nat \<Rightarrow> (nat \<times> position) option"
  where
  "perft rv 0 p = Some (1, p)"
| "perft rv (Suc depth) p =
     do {
       (moves, p1) \<leftarrow> getMoves rv p True False;
       perftLoop rv depth moves p1 0
     }"
| "perftLoop rv depth [] p nodes = Some (nodes, p)"
| "perftLoop rv depth (mv # rest) p nodes =
     do {
       (made, p1) \<leftarrow> makeMove rv p mv;
       if made then do {
         (n, p2) \<leftarrow> perft rv depth p1;
         (unmade, p3) \<leftarrow> unmakeMove rv p2;
         perftLoop rv depth rest p3 (nodes + n)
       }
       else perftLoop rv depth rest p1 nodes
     }"

definition getStatus :: "(int \<Rightarrow> 32 word) \<Rightarrow> position \<Rightarrow> (status \<times> position) option" where
  "getStatus rv p =
     do {
       (moves, p1) \<leftarrow> getMoves rv p False False;
       if length moves = 0 then do {
         kingInCheck \<leftarrow> isKingInCheck p1;
         Some (if kingInCheck then CHECKMATE else STALEMATE_DRAW, p1)
       }
       else if isFiftyMoveRuleDraw p1 then Some (FIFTY_MOVE_RULE_DRAW, p1)
       else if isThreefoldRepetitionRuleDraw p1 then Some (THREEFOLD_REPETITION_RULE_DRAW, p1)
       else if isInsufficientMaterialDraw p1 then Some (INSUFFICIENT_MATERIAL_DRAW, p1)
       else Some (NORMAL, p1)
     }"


section \<open>Counting the hash history\<close>

lemma foldl_count_equal:
  "foldl (\<lambda>previousValue currentValue. previousValue + (if zobrist_isEqual currentValue k then 1 else 0)) n hs
   = n + length (filter (\<lambda>h. h = k) hs)"
proof (induction hs arbitrary: n)
  case Nil
  show ?case by simp
next
  case (Cons h hs)
  have "zobrist_isEqual h k \<longleftrightarrow> h = k" by (auto simp add: zobrist_isEqual_def)
  with Cons show ?case by simp
qed

text \<open>
  The test counts the entries of \<open>hashHistory\<close> that equal the current hash and
  compares the count with three.
\<close>

lemma threefold_count:
  "isThreefoldRepetitionRuleDraw p \<longleftrightarrow> 3 \<le> length (filter (\<lambda>h. h = hashKey p) (hashHistory p))"
  by (simp add: isThreefoldRepetitionRuleDraw_def Let_def foldl_count_equal)

section \<open>Facts about the model\<close>

subsection \<open>The fields of a move\<close>

lemma m6: "(0x3F :: 32 word) = mask 6" and m4: "(0xF :: 32 word) = mask 4" and m3: "(0x7 :: 32 word) = mask 3"
  by (simp_all add: mask_eq_exp_minus_1)

lemma unat_mask_nat: "n \<le> 32 \<Longrightarrow> unat ((word_of_nat x :: 32 word) AND mask n) = x mod 2 ^ n"
proof -
  assume a: "n \<le> 32"
  have "unat ((word_of_nat x :: 32 word) AND mask n) = take_bit n (take_bit 32 x)"
    by (simp add: unsigned_take_bit_eq unsigned_of_nat flip: take_bit_eq_mask)
  also have "\<dots> = take_bit n x" using a by (simp add: min_def)
  finally show ?thesis by (simp add: take_bit_eq_mod)
qed

lemma unat_mask_int: "n \<le> 32 \<Longrightarrow> unat ((word_of_int x :: 32 word) AND mask n) = nat (x mod 2 ^ n)"
proof -
  assume a: "n \<le> 32"
  have "unat ((word_of_int x :: 32 word) AND mask n) = take_bit n (nat (take_bit 32 x))"
    by (simp add: unsigned_take_bit_eq unsigned_of_int flip: take_bit_eq_mask)
  also have "\<dots> = nat (take_bit n (take_bit 32 x))"
    using nat_take_bit_eq [of "take_bit 32 x" n] by simp
  also have "\<dots> = nat (take_bit n x)" using a by (simp add: min_def)
  finally show ?thesis by (simp add: take_bit_eq_mod)
qed

lemma unat_mask_less: "unat ((w :: 32 word) AND mask n) < 2 ^ n"
  by (simp add: unsigned_take_bit_eq flip: take_bit_eq_mask)

lemma field_to: "(a OR push_bit 6 b OR push_bit 12 c OR push_bit 16 d OR push_bit 19 e) AND mask 6 = (a :: 32 word) AND mask 6"
  by (rule bit_word_eqI) (auto simp add: bit_simps)
lemma field_from: "drop_bit 6 ((a AND mask 6) OR push_bit 6 b OR push_bit 12 c OR push_bit 16 d OR push_bit 19 e) AND mask 6 = (b :: 32 word) AND mask 6"
  by (rule bit_word_eqI) (auto simp add: bit_simps)
lemma field_kind: "drop_bit 12 ((a AND mask 6) OR push_bit 6 (b AND mask 6) OR push_bit 12 c OR push_bit 16 d OR push_bit 19 e) AND mask 4 = (c :: 32 word) AND mask 4"
  by (rule bit_word_eqI) (auto simp add: bit_simps)
lemma field_piece: "drop_bit 16 ((a AND mask 6) OR push_bit 6 (b AND mask 6) OR push_bit 12 (c AND mask 4) OR push_bit 16 d OR push_bit 19 e) AND mask 3 = (d :: 32 word) AND mask 3"
  by (rule bit_word_eqI) (auto simp add: bit_simps)
lemma field_captured: "drop_bit 19 ((a AND mask 6) OR push_bit 6 (b AND mask 6) OR push_bit 12 (c AND mask 4) OR push_bit 16 (d AND mask 3) OR push_bit 19 e) AND mask 3 = (e :: 32 word) AND mask 3"
  by (rule bit_word_eqI) (auto simp add: bit_simps)

lemma getTo_Move [simp]: "getTo (Move f t k pc c) = nat (t mod 64)"
  unfolding getTo_def Move_def m6 m4 m3 field_to by (simp add: and.assoc unat_mask_int [of 6, simplified])
lemma getFrom_Move [simp]: "getFrom (Move f t k pc c) = nat (f mod 64)"
  unfolding getFrom_def Move_def m6 m4 m3 field_from by (simp add: and.assoc unat_mask_int [of 6, simplified])
lemma getKind_Move [simp]: "getKind (Move f t k pc c) = k mod 16"
  unfolding getKind_def Move_def m6 m4 m3 field_kind by (simp add: and.assoc unat_mask_nat [of 4, simplified])
lemma getPiece_Move [simp]: "getPiece (Move f t k pc c) = pc mod 8"
  unfolding getPiece_def Move_def m6 m4 m3 field_piece by (simp add: and.assoc unat_mask_nat [of 3, simplified])
lemma getCapturedPiece_Move [simp]: "getCapturedPiece (Move f t k pc c) = (case c of None \<Rightarrow> 0 | Some x \<Rightarrow> x) mod 8"
  unfolding getCapturedPiece_def Move_def m6 m4 m3 field_captured by (simp add: and.assoc unat_mask_nat [of 3, simplified])

lemma getTo_less [simp]: "getTo m < 64" using unat_mask_less [of m 6] by (simp add: getTo_def m6)
lemma getFrom_less [simp]: "getFrom m < 64" using unat_mask_less [of "drop_bit 6 m" 6] by (simp add: getFrom_def m6)
lemma getKind_less [simp]: "getKind m < 16" using unat_mask_less [of "drop_bit 12 m" 4] by (simp add: getKind_def m4)
lemma getPiece_less [simp]: "getPiece m < 8" using unat_mask_less [of "drop_bit 16 m" 3] by (simp add: getPiece_def m3)
lemma getCapturedPiece_less [simp]: "getCapturedPiece m < 8" using unat_mask_less [of "drop_bit 19 m" 3] by (simp add: getCapturedPiece_def m3)

subsection \<open>Castle moves among the generated moves\<close>

lemma lookup_Some: "i < length xs \<Longrightarrow> lookup xs i = Some (xs ! i)"
  by (simp add: lookup_def)

lemma length_KNIGHT_MOVEMENTS [simp]: "length KNIGHT_MOVEMENTS = 64"
  by (simp add: KNIGHT_MOVEMENTS_def)

lemma length_KING_MOVEMENTS [simp]: "length KING_MOVEMENTS = 64"
  by (simp add: KING_MOVEMENTS_def)

definition attackedBy :: "position \<Rightarrow> color \<Rightarrow> nat \<Rightarrow> bool" where
  "attackedBy p color index \<longleftrightarrow>
     isSet (makePawnAttackMask color (getPieceColorBitboard p PAWN color)) index
     \<or> \<not> isEmpty (and_bb (KNIGHT_MOVEMENTS ! index) (getPieceColorBitboard p KNIGHT color))
     \<or> \<not> isEmpty (and_bb (KING_MOVEMENTS ! index) (getPieceColorBitboard p KING color))
     \<or> isSet (makeBishopAttackMask (or_bb (getPieceColorBitboard p BISHOP color)
                   (getPieceColorBitboard p QUEEN color)) (getOccupiedBitboard p)) index
     \<or> isSet (makeRookAttackMask (or_bb (getPieceColorBitboard p ROOK color)
                   (getPieceColorBitboard p QUEEN color)) (getOccupiedBitboard p)) index"

lemma isAttacked_eq: "index < 64 \<Longrightarrow> isAttacked p color index = Some (attackedBy p color index)"
  by (simp add: isAttacked_def attackedBy_def Let_def lookup_Some)

lemma isAttacked_None: "isAttacked p color index = None \<Longrightarrow> 64 \<le> index"
  using isAttacked_eq [of index p color] by (cases "index < 64") simp_all

lemma kind_addPawnMoves: "m \<in> set (addPawnMoves p toMask movement kind) \<Longrightarrow> getKind m = kind mod 16"
  by (auto simp add: addPawnMoves_def)

lemma kind_addPawnPromotions:
  "m \<in> set (addPawnPromotions p toMask movement capture) \<Longrightarrow> 8 \<le> getKind m"
  by (auto simp add: addPawnPromotions_def dest!: kind_addPawnMoves split: if_splits)

lemma kind_addNormalMoves:
  "m \<in> set (addNormalMoves p opponentBB from toMask piece) \<Longrightarrow> getKind m = CAPTURE \<or> getKind m = POSITIONAL"
  by (auto simp add: addNormalMoves_def split: if_splits)

definition isCastleKind :: "nat \<Rightarrow> bool" where
  "isCastleKind k \<longleftrightarrow> k = KING_CASTLE \<or> k = QUEEN_CASTLE"


subsection \<open>The parts of the generated list\<close>

definition fileDir :: "position \<Rightarrow> int" where
  "fileDir p = 1 - 2 * int (cnum (turn p))"

definition pawnQuietMoves :: "position \<Rightarrow> move list" where
  "pawnQuietMoves p =
     (let occupied = getOccupiedBitboard p;
          rankDirection = 8 * fileDir p;
          turnPawns = getPieceColorBitboard p PAWN (turn p);
          lastRow = RANKS ! (if turn p \<noteq> WHITE then 0 else 7);
          doublePawnPushed =
            and_not (and_not (shiftLeft (and_bb turnPawns (RANKS ! (if turn p \<noteq> WHITE then 6 else 1)))
                                (2 * rankDirection)) occupied)
              (shiftLeft occupied rankDirection);
          positionalPawnMoved = and_not (shiftLeft turnPawns rankDirection) occupied
      in addPawnMoves p doublePawnPushed (2 * rankDirection) DOUBLE_PAWN_PUSH
         @ addPawnMoves p (and_not positionalPawnMoved lastRow) rankDirection POSITIONAL
         @ addPawnPromotions p (and_bb positionalPawnMoved lastRow) rankDirection False)"

definition pawnCaptureMoves :: "position \<Rightarrow> bool \<Rightarrow> move list" where
  "pawnCaptureMoves p left =
     (let opponentBB = getColorBitboard p (getOtherPieceColor (turn p));
          turnPawns = getPieceColorBitboard p PAWN (turn p);
          lastRow = RANKS ! (if turn p \<noteq> WHITE then 0 else 7);
          edgeFile = FILES ! (if (turn p \<noteq> WHITE) = left then 7 else 0);
          movement = 8 * fileDir p + (if left then - fileDir p else fileDir p);
          captured = and_bb (shiftLeft (and_not turnPawns edgeFile) movement) opponentBB
      in addPawnMoves p (and_not captured lastRow) movement CAPTURE
         @ addPawnPromotions p (and_bb captured lastRow) movement True)"

definition enPassantMoves :: "position \<Rightarrow> bool \<Rightarrow> move list" where
  "enPassantMoves p left =
     (let turnPawns = getPieceColorBitboard p PAWN (turn p);
          edgeFile = FILES ! (if (turn p \<noteq> WHITE) = left then 7 else 0);
          movement = 8 * fileDir p + (if left then - fileDir p else fileDir p);
          beside = enPassantSquare p + (if left then fileDir p else - fileDir p)
      in addPawnMoves p (shiftLeft (and_not (and_bb (makeIndex (u32 beside)) turnPawns) edgeFile) movement)
           movement EN_PASSANT_CAPTURE)"

definition targetMask :: "position \<Rightarrow> bool \<Rightarrow> bitboard" where
  "targetMask p onlyCaptures =
     (if onlyCaptures
      then and_bb (not_bb (getColorBitboard p (turn p))) (getColorBitboard p (getOtherPieceColor (turn p)))
      else not_bb (getColorBitboard p (turn p)))"

definition pieceAttackMask :: "position \<Rightarrow> nat \<Rightarrow> nat \<Rightarrow> bitboard" where
  "pieceAttackMask p piece position =
     (if piece = KNIGHT then KNIGHT_MOVEMENTS ! position
      else if piece = QUEEN then
        or_bb (makeBishopAttackMask (makeIndex position) (getOccupiedBitboard p))
              (makeRookAttackMask (makeIndex position) (getOccupiedBitboard p))
      else if piece = BISHOP then makeBishopAttackMask (makeIndex position) (getOccupiedBitboard p)
      else if piece = ROOK then makeRookAttackMask (makeIndex position) (getOccupiedBitboard p)
      else KING_MOVEMENTS ! position)"

definition pieceMoves :: "position \<Rightarrow> bool \<Rightarrow> nat \<Rightarrow> move list" where
  "pieceMoves p onlyCaptures piece =
     concat (map (\<lambda>position.
                addNormalMoves p (getColorBitboard p (getOtherPieceColor (turn p))) position
                  (and_bb (pieceAttackMask p piece position) (targetMask p onlyCaptures)) piece)
        (bitIndices (getPieceColorBitboard p piece (turn p))))"

definition kingMoves :: "position \<Rightarrow> bool \<Rightarrow> move list" where
  "kingMoves p onlyCaptures =
     addNormalMoves p (getColorBitboard p (getOtherPieceColor (turn p))) (getKingPosition p (turn p))
       (and_bb (pieceAttackMask p KING (getKingPosition p (turn p))) (targetMask p onlyCaptures)) KING"

definition plainMoves :: "position \<Rightarrow> bool \<Rightarrow> move list" where
  "plainMoves p onlyCaptures =
     (if \<not> onlyCaptures then pawnQuietMoves p else [])
     @ pawnCaptureMoves p True @ pawnCaptureMoves p False
     @ (if canEnPassant p then enPassantMoves p True @ enPassantMoves p False else [])
     @ pieceMoves p onlyCaptures KNIGHT @ pieceMoves p onlyCaptures QUEEN
     @ pieceMoves p onlyCaptures BISHOP @ pieceMoves p onlyCaptures ROOK
     @ kingMoves p onlyCaptures"

definition castleMoves :: "position \<Rightarrow> bool \<Rightarrow> bool \<Rightarrow> move list" where
  "castleMoves p kingCastle queenCastle =
     (if kingCastle
      then [Move (int (getKingPosition p (turn p))) (int (getKingPosition p (turn p)) + 2) KING_CASTLE KING None]
      else [])
     @ (if queenCastle
        then [Move (int (getKingPosition p (turn p))) (int (getKingPosition p (turn p)) - 2) QUEEN_CASTLE KING None]
        else [])"

lemma generateMoves_parts:
  "generateMoves p onlyCaptures =
     (if getKingPosition p (turn p) < 64 then
        if \<not> onlyCaptures then do {
          kingCastle \<leftarrow> canCastle p (turn p) True True;
          queenCastle \<leftarrow> canCastle p (turn p) False True;
          Some (plainMoves p onlyCaptures @ castleMoves p kingCastle queenCastle)
        }
        else Some (plainMoves p onlyCaptures)
      else None)"
  by (simp add: generateMoves_def plainMoves_def castleMoves_def kingMoves_def pieceMoves_def
      pieceAttackMask_def targetMask_def enPassantMoves_def pawnCaptureMoves_def pawnQuietMoves_def
      fileDir_def getTurnColor_def getEnPassantSquare_def Let_def lookup_def algebra_simps
      cong: if_cong)

subsection \<open>Castling\<close>

definition kingHome :: "color \<Rightarrow> nat" where
  "kingHome color = (if color = WHITE then 4 else 60)"

definition castleBetween :: "color \<Rightarrow> bool \<Rightarrow> nat list" where
  "castleBetween color kingSide =
     (if kingSide then [kingHome color + 1, kingHome color + 2]
      else [kingHome color - 1, kingHome color - 2, kingHome color - 3])"

definition castleRoute :: "color \<Rightarrow> bool \<Rightarrow> nat list" where
  "castleRoute color kingSide =
     (if kingSide then [kingHome color, kingHome color + 1, kingHome color + 2]
      else [kingHome color, kingHome color - 1, kingHome color - 2])"

lemma isCastlingLegal_eq:
  "isCastlingLegal p color kingSide =
     Some (\<forall>s\<in>set (castleRoute color kingSide). \<not> attackedBy p (getOtherPieceColor color) s)"
  by (cases color; cases kingSide)
    (simp_all add: isCastlingLegal_def castleRoute_def kingHome_def u32_def isAttacked_eq Let_def)

lemma canCastle_eq:
  "canCastle p color kingSide onlyLegal =
     Some (hasCastlingRight p color kingSide
           \<and> (\<forall>s\<in>set (castleBetween color kingSide). \<not> isSet (getOccupiedBitboard p) s)
           \<and> (onlyLegal \<longrightarrow> (\<forall>s\<in>set (castleRoute color kingSide). \<not> attackedBy p (getOtherPieceColor color) s)))"
  by (cases color; cases kingSide)
    (auto simp add: canCastle_def isCastlingLegal_eq castleBetween_def castleRoute_def kingHome_def u32_def Let_def)

lemma plainMoves_not_castle: "m \<in> set (plainMoves p onlyCaptures) \<Longrightarrow> \<not> isCastle m"
  by (auto simp add: plainMoves_def pawnQuietMoves_def pawnCaptureMoves_def enPassantMoves_def
      pieceMoves_def kingMoves_def isCastle_def Let_def
      dest!: kind_addPawnMoves kind_addPawnPromotions kind_addNormalMoves split: if_splits)

lemma castleMoves_kind:
  "m \<in> set (castleMoves p kc qc) \<Longrightarrow>
     (kc \<and> m = Move (int (getKingPosition p (turn p))) (int (getKingPosition p (turn p)) + 2) KING_CASTLE KING None)
     \<or> (qc \<and> m = Move (int (getKingPosition p (turn p))) (int (getKingPosition p (turn p)) - 2) QUEEN_CASTLE KING None)"
  by (auto simp add: castleMoves_def split: if_splits)

subsection \<open>Evaluating the model on concrete boards\<close>

lemmas bb_defs = makeBitboard_def popcnt32_def popLowestBit32_def getLowestBitPosition32_def popcnt_def
  popLowestBit_def getLowestBitPosition_def isEmpty_def isClear_def isSet_def setBit_def clearBit_def
  and_bb_def and_not_def or_bb_def xor_bb_def not_bb_def shl_def shr_def shiftLeft_def isEqual_def
  makeZero_def makeOne_def makeLightSquares_def makeDarkSquares_def makeFile_def makeRank_def makeIndex_def
  ZERO_def ONE_def LIGHT_SQUARES_def DARK_SQUARES_def

lemma FILES_eq:
  "FILES = [\<lparr>low = 0x01010101, high = 0x01010101\<rparr>, \<lparr>low = 0x02020202, high = 0x02020202\<rparr>,
    \<lparr>low = 0x04040404, high = 0x04040404\<rparr>, \<lparr>low = 0x08080808, high = 0x08080808\<rparr>,
    \<lparr>low = 0x10101010, high = 0x10101010\<rparr>, \<lparr>low = 0x20202020, high = 0x20202020\<rparr>,
    \<lparr>low = 0x40404040, high = 0x40404040\<rparr>, \<lparr>low = 0x80808080, high = 0x80808080\<rparr>]"
  by (simp add: FILES_def bb_defs upt_rec)

lemma RANKS_eq:
  "RANKS = [\<lparr>low = 0xFF, high = 0\<rparr>, \<lparr>low = 0xFF00, high = 0\<rparr>,
    \<lparr>low = 0xFF0000, high = 0\<rparr>, \<lparr>low = 0xFF000000, high = 0\<rparr>,
    \<lparr>low = 0, high = 0xFF\<rparr>, \<lparr>low = 0, high = 0xFF00\<rparr>,
    \<lparr>low = 0, high = 0xFF0000\<rparr>, \<lparr>low = 0, high = 0xFF000000\<rparr>]"
  by (simp add: RANKS_def bb_defs upt_rec)

lemma SLIDING_MASKS_eq:
  "SLIDING_MASKS = [\<lparr>low = 0x7F7F7F7F, high = 0x7F7F7F7F\<rparr>, \<lparr>low = 0xFFFFFFFF, high = 0xFFFFFFFF\<rparr>,
    \<lparr>low = 0xFEFEFEFE, high = 0xFEFEFEFE\<rparr>]"
  by (simp add: SLIDING_MASKS_def bb_defs)

lemma KNIGHT_MOVEMENTS_nth: "i < 64 \<Longrightarrow> KNIGHT_MOVEMENTS ! i = makeKnightMovement i"
  by (simp add: KNIGHT_MOVEMENTS_def)

lemma KING_MOVEMENTS_nth: "i < 64 \<Longrightarrow> KING_MOVEMENTS ! i = makeKingMovement i"
  by (simp add: KING_MOVEMENTS_def)

lemmas table_defs = FILES_eq RANKS_eq SLIDING_MASKS_eq KNIGHT_MOVEMENTS_nth KING_MOVEMENTS_nth
  makeKnightMovement_def makeKingMovement_def

lemmas attack_defs = attackedBy_def makePawnAttackMask_def makeBishopAttackMask_def makeRookAttackMask_def
  makeSlidingAttackMask_def slide.simps getPieceColorBitboard_def getColorBitboard_def
  getPieceBitboard_def getOccupiedBitboard_def getKingPosition_def

text \<open>White: king e1, rook h1; black: king e8; white may castle on the king's side.\<close>

definition castlePosition :: position where
  "castlePosition =
     \<lparr>hashKey = \<lparr>zlow = 0, zhigh = 0\<rparr>,
      bitboards = [makeZero, makeZero, makeZero, makeIndex 7, makeZero,
                   or_bb (makeIndex 4) (makeIndex 60), or_bb (makeIndex 4) (makeIndex 7), makeIndex 60],
      pieces = (\<lambda>index. if index = 4 \<or> index = 60 then Some KING else if index = 7 then Some ROOK else None),
      turn = WHITE, castlingRights = 1, enPassantSquare = - 1, halfmoveClock = 0,
      madeMoves = [], irreversibleHistory = [], hashHistory = [], halfMoveClock = None\<rparr>"

lemma castlePosition_canCastle: "canCastle castlePosition WHITE True True = Some True"
  by (simp add: canCastle_eq castlePosition_def hasCastlingRight_def getCastlingIndex_def
      castleBetween_def castleRoute_def kingHome_def attack_defs table_defs bb_defs Let_def)

lemma castlePosition_king: "getKingPosition castlePosition WHITE = 4"
  by (simp add: castlePosition_def attack_defs bb_defs)

section \<open>Castling gating\<close>

text \<open>
  The conditions of the claim, read off the data of the position: bit \<open>rightBit\<close> of
  \<open>castlingRights\<close> (0 and 2 for white's king and queen side, 1 and 3 for black's), and
  the bit of a square in the board of white's and in the board of black's pieces.
\<close>

definition rightBit :: "color \<Rightarrow> bool \<Rightarrow> nat" where
  "rightBit color kingSide =
     (case color of WHITE \<Rightarrow> (if kingSide then 0 else 2) | BLACK \<Rightarrow> (if kingSide then 1 else 3))"

definition squareBit :: "bitboard \<Rightarrow> nat \<Rightarrow> bool" where
  "squareBit b i \<longleftrightarrow> (if i < 32 then bit (low b) i else bit (high b) (i - 32))"

definition squareEmpty :: "position \<Rightarrow> nat \<Rightarrow> bool" where
  "squareEmpty p s \<longleftrightarrow> \<not> squareBit (bitboards p ! 6) s \<and> \<not> squareBit (bitboards p ! 7) s"

lemma hasCastlingRight_bit: "hasCastlingRight p color kingSide \<longleftrightarrow> bit (castlingRights p) (rightBit color kingSide)"
  by (cases color)
    (simp_all add: hasCastlingRight_def getCastlingIndex_def rightBit_def bit_iff_and_push_bit_not_eq_0)

lemma occupied_squareEmpty: "s < 64 \<Longrightarrow> \<not> isSet (getOccupiedBitboard p) s \<longleftrightarrow> squareEmpty p s"
  by (simp add: getOccupiedBitboard_def squareEmpty_def squareBit_def isSet_iff [symmetric])

lemma castleBetween_less: "s \<in> set (castleBetween color kingSide) \<Longrightarrow> s < 64"
  by (auto simp add: castleBetween_def kingHome_def split: if_splits)

lemma canCastle_data:
  "canCastle p color kingSide onlyLegal =
     Some (bit (castlingRights p) (rightBit color kingSide)
           \<and> (\<forall>s\<in>set (castleBetween color kingSide). squareEmpty p s)
           \<and> (onlyLegal \<longrightarrow>
                (\<forall>s\<in>set (castleRoute color kingSide). \<not> attackedBy p (getOtherPieceColor color) s)))"
proof -
  have "(\<forall>s\<in>set (castleBetween color kingSide). \<not> isSet (getOccupiedBitboard p) s)
          \<longleftrightarrow> (\<forall>s\<in>set (castleBetween color kingSide). squareEmpty p s)"
    using castleBetween_less [of _ color kingSide] by (auto simp add: occupied_squareEmpty)
  then show ?thesis by (simp add: canCastle_eq hasCastlingRight_bit)
qed

text \<open>
  Claim C8.  \<open>canCastle\<close> answers true exactly when the bit of the colour and side is
  set in \<open>castlingRights\<close>, the squares between the king's and the rook's home squares
  carry no bit in the boards of the white and of the black pieces and, when \<open>onlyLegal\<close>
  is asked for, the king's start, transit and destination squares are not attacked by the
  other colour.  The generator, asked for all moves, offers the castle move of a side for
  the colour to move exactly when these three conditions hold (it always asks for the
  legal variant), and offers no other castle; asked for captures only it offers none.
\<close>

theorem castling_gating:
  "canCastle p color kingSide onlyLegal =
     Some (bit (castlingRights p) (rightBit color kingSide)
           \<and> (\<forall>s\<in>set (castleBetween color kingSide). squareEmpty p s)
           \<and> (onlyLegal \<longrightarrow>
                (\<forall>s\<in>set (castleRoute color kingSide). \<not> attackedBy p (getOtherPieceColor color) s)))
   \<and> (\<forall>ms. generateMoves p False = Some ms \<longrightarrow>
         ((\<exists>m\<in>set ms. getKind m = (if kingSide then KING_CASTLE else QUEEN_CASTLE))
            \<longleftrightarrow> bit (castlingRights p) (rightBit (turn p) kingSide)
                \<and> (\<forall>s\<in>set (castleBetween (turn p) kingSide). squareEmpty p s)
                \<and> (\<forall>s\<in>set (castleRoute (turn p) kingSide).
                      \<not> attackedBy p (getOtherPieceColor (turn p)) s))
         \<and> (\<forall>m\<in>set ms. getKind m = (if kingSide then KING_CASTLE else QUEEN_CASTLE) \<longrightarrow>
               m = Move (int (getKingPosition p (turn p)))
                     (int (getKingPosition p (turn p)) + (if kingSide then 2 else - 2))
                     (if kingSide then KING_CASTLE else QUEEN_CASTLE) KING None))
   \<and> (\<forall>ms. generateMoves p True = Some ms \<longrightarrow> (\<forall>m\<in>set ms. \<not> isCastle m))"
proof (intro conjI allI impI)
  show "canCastle p color kingSide onlyLegal =
     Some (bit (castlingRights p) (rightBit color kingSide)
           \<and> (\<forall>s\<in>set (castleBetween color kingSide). squareEmpty p s)
           \<and> (onlyLegal \<longrightarrow>
                (\<forall>s\<in>set (castleRoute color kingSide). \<not> attackedBy p (getOtherPieceColor color) s)))"
    by (rule canCastle_data)
next
  fix ms assume g: "generateMoves p False = Some ms"
  define kc where "kc \<longleftrightarrow> bit (castlingRights p) (rightBit (turn p) True)
                \<and> (\<forall>s\<in>set (castleBetween (turn p) True). squareEmpty p s)
                \<and> (\<forall>s\<in>set (castleRoute (turn p) True). \<not> attackedBy p (getOtherPieceColor (turn p)) s)"
  define qc where "qc \<longleftrightarrow> bit (castlingRights p) (rightBit (turn p) False)
                \<and> (\<forall>s\<in>set (castleBetween (turn p) False). squareEmpty p s)
                \<and> (\<forall>s\<in>set (castleRoute (turn p) False). \<not> attackedBy p (getOtherPieceColor (turn p)) s)"
  have kc: "canCastle p (turn p) True True = Some kc" by (simp add: canCastle_data kc_def)
  have qc: "canCastle p (turn p) False True = Some qc" by (simp add: canCastle_data qc_def)
  from g kc qc have ms: "ms = plainMoves p False @ castleMoves p kc qc"
    by (simp add: generateMoves_parts split: if_splits)
  have plain: "\<And>m. m \<in> set (plainMoves p False) \<Longrightarrow> getKind m \<noteq> KING_CASTLE \<and> getKind m \<noteq> QUEEN_CASTLE"
    using plainMoves_not_castle [of _ p False] by (auto simp add: isCastle_def)
  have "(\<exists>m\<in>set ms. getKind m = (if kingSide then KING_CASTLE else QUEEN_CASTLE))
          \<longleftrightarrow> (if kingSide then kc else qc)"
    using plain by (cases kingSide) (auto simp add: ms castleMoves_def)
  then show "(\<exists>m\<in>set ms. getKind m = (if kingSide then KING_CASTLE else QUEEN_CASTLE))
            \<longleftrightarrow> bit (castlingRights p) (rightBit (turn p) kingSide)
                \<and> (\<forall>s\<in>set (castleBetween (turn p) kingSide). squareEmpty p s)
                \<and> (\<forall>s\<in>set (castleRoute (turn p) kingSide).
                      \<not> attackedBy p (getOtherPieceColor (turn p)) s)"
    by (cases kingSide) (simp_all add: kc_def qc_def)
  show "\<forall>m\<in>set ms. getKind m = (if kingSide then KING_CASTLE else QUEEN_CASTLE) \<longrightarrow>
          m = Move (int (getKingPosition p (turn p)))
                (int (getKingPosition p (turn p)) + (if kingSide then 2 else - 2))
                (if kingSide then KING_CASTLE else QUEEN_CASTLE) KING None"
    using plain by (cases kingSide) (auto simp add: ms castleMoves_def split: if_splits)
next
  fix ms assume "generateMoves p True = Some ms"
  then have "ms = plainMoves p True" by (simp add: generateMoves_parts split: if_splits)
  then show "\<forall>m\<in>set ms. \<not> isCastle m" using plainMoves_not_castle by blast
qed

lemma castlePosition_conditions:
  "bit (castlingRights castlePosition) (rightBit WHITE True)"
  "\<forall>s\<in>set (castleBetween WHITE True). squareEmpty castlePosition s"
  "\<forall>s\<in>set (castleRoute WHITE True). \<not> attackedBy castlePosition BLACK s"
  using castlePosition_canCastle by (simp_all add: canCastle_data)

theorem castling_gating_witness:
  "bit (castlingRights castlePosition) 0
   \<and> squareEmpty castlePosition 5 \<and> squareEmpty castlePosition 6
   \<and> \<not> attackedBy castlePosition BLACK 4 \<and> \<not> attackedBy castlePosition BLACK 5
   \<and> \<not> attackedBy castlePosition BLACK 6
   \<and> canCastle castlePosition WHITE True True = Some True
   \<and> \<not> bit (castlingRights castlePosition) 2
   \<and> canCastle castlePosition WHITE False True = Some False
   \<and> (\<exists>ms. generateMoves castlePosition False = Some ms
         \<and> (\<exists>m\<in>set ms. getKind m = KING_CASTLE)
         \<and> Move 4 6 KING_CASTLE KING None \<in> set ms
         \<and> \<not> (\<exists>m\<in>set ms. getKind m = QUEEN_CASTLE))"
proof -
  have t: "turn castlePosition = WHITE" by (simp add: castlePosition_def)
  have nb: "\<not> bit (castlingRights castlePosition) 2" by (simp add: castlePosition_def)
  note c = castlePosition_conditions
  have c': "bit (castlingRights castlePosition) 0"
    "squareEmpty castlePosition 5 \<and> squareEmpty castlePosition 6"
    "\<not> attackedBy castlePosition BLACK 4 \<and> \<not> attackedBy castlePosition BLACK 5
       \<and> \<not> attackedBy castlePosition BLACK 6"
    using c by (simp_all add: rightBit_def castleBetween_def castleRoute_def kingHome_def)
  have q: "canCastle castlePosition WHITE False True = Some False"
    using castling_gating [of castlePosition WHITE False True] nb by (simp add: rightBit_def)
  have g: "generateMoves castlePosition False
           = Some (plainMoves castlePosition False @ castleMoves castlePosition True False)"
    by (simp add: generateMoves_parts t castlePosition_king castlePosition_canCastle q)
  from castling_gating [of castlePosition WHITE True True] g c
  have k: "\<exists>m\<in>set (plainMoves castlePosition False @ castleMoves castlePosition True False). getKind m = KING_CASTLE"
    by (simp add: t)
  from castling_gating [of castlePosition WHITE False True] g nb
  have n: "\<forall>m\<in>set (plainMoves castlePosition False @ castleMoves castlePosition True False).
             getKind m \<noteq> QUEEN_CASTLE"
    by (simp add: t rightBit_def)
  have "Move 4 6 KING_CASTLE KING None \<in> set (plainMoves castlePosition False @ castleMoves castlePosition True False)"
    by (simp add: castleMoves_def t castlePosition_king)
  with k n show ?thesis using g castlePosition_canCastle c' nb q by auto
qed

section \<open>Insufficient material\<close>

lemma confined_iff: "isEqual (and_bb b sq) b \<longleftrightarrow> (\<forall>i<64. isSet b i \<longrightarrow> isSet sq i)"
proof
  assume "isEqual (and_bb b sq) b"
  then have e: "and_bb b sq = b" by (simp add: isEqual_def and_bb_def)
  show "\<forall>i<64. isSet b i \<longrightarrow> isSet sq i"
  proof (intro allI impI)
    fix i assume "i < 64" "isSet b i"
    then have "isSet (and_bb b sq) i" by (simp only: e)
    with \<open>i < 64\<close> show "isSet sq i" by simp
  qed
next
  assume h: "\<forall>i<64. isSet b i \<longrightarrow> isSet sq i"
  have "and_bb b sq = b" by (rule bb_eqI) (use h in auto)
  then show "isEqual (and_bb b sq) b" by (simp add: isEqual_def)
qed

text \<open>
  The sentence of the specification, word for word: no pawns, rooks or queens, and
  either fewer than four pieces or all bishops on squares of one colour.
\<close>

definition insufficientMaterial_spec :: "position \<Rightarrow> bool" where
  "insufficientMaterial_spec p \<longleftrightarrow>
     isEmpty (getPieceBitboard p PAWN) \<and> isEmpty (getPieceBitboard p ROOK)
     \<and> isEmpty (getPieceBitboard p QUEEN)
     \<and> (popcnt (getColorBitboard p WHITE) + popcnt (getColorBitboard p BLACK) < 4
        \<or> (\<forall>i<64. isSet (getPieceBitboard p BISHOP) i \<longrightarrow> isSet LIGHT_SQUARES i)
        \<or> (\<forall>i<64. isSet (getPieceBitboard p BISHOP) i \<longrightarrow> isSet DARK_SQUARES i))"

text \<open>White: king e1, knight b1, bishop c1; black: king e8.\<close>

definition minorPiecesEnding :: position where
  "minorPiecesEnding =
     \<lparr>hashKey = \<lparr>zlow = 0, zhigh = 0\<rparr>,
      bitboards = [makeZero, makeIndex 1, makeIndex 2, makeZero, makeZero,
                   or_bb (makeIndex 4) (makeIndex 60),
                   or_bb (or_bb (makeIndex 1) (makeIndex 2)) (makeIndex 4), makeIndex 60],
      pieces = (\<lambda>index. if index = 4 \<or> index = 60 then Some KING
                         else if index = 1 then Some KNIGHT else if index = 2 then Some BISHOP else None),
      turn = WHITE, castlingRights = 0, enPassantSquare = - 1, halfmoveClock = 0,
      madeMoves = [], irreversibleHistory = [], hashHistory = [], halfMoveClock = None\<rparr>"

text \<open>White: king e1, bishop c1; black: king e8, bishop f8; both bishops on dark squares.\<close>

definition bishopsEnding :: position where
  "bishopsEnding =
     \<lparr>hashKey = \<lparr>zlow = 0, zhigh = 0\<rparr>,
      bitboards = [makeZero, makeZero, or_bb (makeIndex 2) (makeIndex 61), makeZero, makeZero,
                   or_bb (makeIndex 4) (makeIndex 60),
                   or_bb (makeIndex 2) (makeIndex 4), or_bb (makeIndex 60) (makeIndex 61)],
      pieces = (\<lambda>index. if index = 4 \<or> index = 60 then Some KING
                         else if index = 2 \<or> index = 61 then Some BISHOP else None),
      turn = WHITE, castlingRights = 0, enPassantSquare = - 1, halfmoveClock = 0,
      madeMoves = [], irreversibleHistory = [], hashHistory = [], halfMoveClock = None\<rparr>"

text \<open>
  Claim C7, as stated, fails: with king, knight and bishop against king no pawn, rook or
  queen remains and the only bishop stands on a dark square, yet
  \<open>isInsufficientMaterialDraw\<close> answers false, because four pieces are on the board and
  one of them is a knight.
\<close>

theorem insufficient_material_counterexample:
  "\<not> (isInsufficientMaterialDraw minorPiecesEnding \<longleftrightarrow> insufficientMaterial_spec minorPiecesEnding)"
proof -
  have "\<not> isInsufficientMaterialDraw minorPiecesEnding"
    by (simp add: isInsufficientMaterialDraw_def minorPiecesEnding_def getPieceBitboard_def
        getColorBitboard_def bb_defs Let_def)
  moreover have "isEqual (and_bb (getPieceBitboard minorPiecesEnding BISHOP) DARK_SQUARES)
                   (getPieceBitboard minorPiecesEnding BISHOP)"
    by (simp add: minorPiecesEnding_def getPieceBitboard_def bb_defs)
  then have "\<forall>i<64. isSet (getPieceBitboard minorPiecesEnding BISHOP) i \<longrightarrow> isSet DARK_SQUARES i"
    by (simp only: confined_iff)
  moreover have "isEmpty (getPieceBitboard minorPiecesEnding PAWN) \<and> isEmpty (getPieceBitboard minorPiecesEnding ROOK)
     \<and> isEmpty (getPieceBitboard minorPiecesEnding QUEEN)"
    by (simp add: minorPiecesEnding_def getPieceBitboard_def bb_defs)
  ultimately show ?thesis by (simp add: insufficientMaterial_spec_def)
qed

text \<open>
  Claim C7, amended: the draw holds exactly when no pawn, rook or queen remains and
  either fewer than four pieces are on the board, or no knight remains and all bishops
  stand on squares of one colour.
\<close>

theorem insufficient_material_iff:
  "isInsufficientMaterialDraw p \<longleftrightarrow>
     isEmpty (getPieceBitboard p PAWN) \<and> isEmpty (getPieceBitboard p ROOK)
     \<and> isEmpty (getPieceBitboard p QUEEN)
     \<and> (popcnt (getColorBitboard p WHITE) + popcnt (getColorBitboard p BLACK) < 4
        \<or> isEmpty (getPieceBitboard p KNIGHT)
           \<and> ((\<forall>i<64. isSet (getPieceBitboard p BISHOP) i \<longrightarrow> isSet LIGHT_SQUARES i)
              \<or> (\<forall>i<64. isSet (getPieceBitboard p BISHOP) i \<longrightarrow> isSet DARK_SQUARES i)))"
  by (auto simp add: isInsufficientMaterialDraw_def Let_def confined_iff)

theorem insufficient_material_iff_witness:
  "isInsufficientMaterialDraw bishopsEnding \<and> \<not> isInsufficientMaterialDraw minorPiecesEnding"
proof -
  have "isEqual (and_bb (getPieceBitboard bishopsEnding BISHOP) DARK_SQUARES)
          (getPieceBitboard bishopsEnding BISHOP)"
    by (simp add: bishopsEnding_def getPieceBitboard_def bb_defs)
  then have d: "\<forall>i<64. isSet (getPieceBitboard bishopsEnding BISHOP) i \<longrightarrow> isSet DARK_SQUARES i"
    by (simp only: confined_iff)
  have e: "isEmpty (getPieceBitboard bishopsEnding PAWN)" "isEmpty (getPieceBitboard bishopsEnding ROOK)"
    "isEmpty (getPieceBitboard bishopsEnding QUEEN)" "isEmpty (getPieceBitboard bishopsEnding KNIGHT)"
    by (simp_all add: bishopsEnding_def getPieceBitboard_def bb_defs)
  have 1: "isInsufficientMaterialDraw bishopsEnding"
    using insufficient_material_iff [of bishopsEnding] d e by blast
  have k: "\<not> isEmpty (getPieceBitboard minorPiecesEnding KNIGHT)"
    "\<not> popcnt (getColorBitboard minorPiecesEnding WHITE) + popcnt (getColorBitboard minorPiecesEnding BLACK) < 4"
    by (simp_all add: minorPiecesEnding_def getPieceBitboard_def getColorBitboard_def bb_defs)
  have 2: "\<not> isInsufficientMaterialDraw minorPiecesEnding"
    using insufficient_material_iff [of minorPiecesEnding] k by blast
  from 1 2 show ?thesis ..
qed

section \<open>The lowest set bit\<close>

lemma popcnt32_mask: "k \<le> 32 \<Longrightarrow> popcnt32 (mask k) = k"
proof -
  have "\<forall>k\<in>set [0..<33]. popcnt32 (mask k) = k"
    by (simp add: upt_rec popcnt32_def mask_eq_exp_minus_1 Let_def)
  moreover assume "k \<le> 32"
  ultimately show ?thesis by simp
qed

lemma lowest_bit32:
  fixes v :: "32 word"
  assumes "v \<noteq> 0"
  defines "k \<equiv> LEAST n. bit v n"
  shows "bit v k" and "k < 32" and "\<And>n. n < k \<Longrightarrow> \<not> bit v n"
    and "v - 1 = push_bit (Suc k) (drop_bit (Suc k) v) OR mask k"
proof -
  from assms(1) obtain n where "bit v n" by (auto simp add: bit_eq_iff)
  then show bk: "bit v k" unfolding k_def by (rule LeastI)
  then show "k < 32" by (rule bit32)
  show below: "\<And>n. n < k \<Longrightarrow> \<not> bit v n" unfolding k_def by (rule not_less_Least)
  let ?u = "push_bit (Suc k) (drop_bit (Suc k) v)"
  have v: "v = ?u + push_bit k 1"
  proof -
    have "v = ?u OR push_bit k 1"
    proof (rule bit_word_eqI)
      fix n assume "n < LENGTH(32)"
      consider "n < k" | "n = k" | "k < n" by linarith
      then show "bit v n = bit (?u OR push_bit k 1) n"
      proof cases
        case 1 then show ?thesis using below [of n] by (auto simp add: bit_simps simp del: push_bit_Suc)
      next
        case 2 then show ?thesis using bk \<open>k < 32\<close> by (auto simp add: bit_simps simp del: push_bit_Suc)
      next
        case 3 then show ?thesis using \<open>n < LENGTH(32)\<close> by (auto simp add: bit_simps simp del: push_bit_Suc)
      qed
    qed
    also have "\<dots> = ?u + push_bit k 1"
      by (rule disjunctive_add [symmetric]) (auto simp add: bit_simps simp del: push_bit_Suc)
    finally show ?thesis .
  qed
  have "v - 1 = ?u + (push_bit k 1 - 1)" by (subst v) simp
  also have "push_bit k 1 - 1 = (mask k :: 32 word)" by (simp add: mask_eq_exp_minus_1 push_bit_eq_mult)
  also have "?u + mask k = ?u OR mask k"
    by (rule disjunctive_add) (auto simp add: bit_simps simp del: push_bit_Suc)
  finally show "v - 1 = ?u OR mask k" .
qed

lemma popLowestBit32_eq:
  fixes v :: "32 word"
  assumes "v \<noteq> 0"
  shows "popLowestBit32 v = v AND NOT (push_bit (LEAST n. bit v n) 1)"
proof (rule bit_word_eqI)
  fix n assume n: "n < LENGTH(32)"
  let ?k = "LEAST n. bit v n"
  note l = lowest_bit32 [OF assms]
  consider "n < ?k" | "n = ?k" | "?k < n" by linarith
  then show "bit (popLowestBit32 v) n = bit (v AND NOT (push_bit ?k 1)) n"
  proof cases
    case 1 then show ?thesis using l(3) [of n] by (auto simp add: popLowestBit32_def bit_simps simp del: push_bit_Suc)
  next
    case 2 then show ?thesis using n by (auto simp add: popLowestBit32_def l(4) bit_simps simp del: push_bit_Suc)
  next
    case 3 then show ?thesis using n by (auto simp add: popLowestBit32_def l(4) bit_simps simp del: push_bit_Suc)
  qed
qed

lemma getLowestBitPosition32_eq:
  fixes v :: "32 word"
  assumes "v \<noteq> 0"
  shows "getLowestBitPosition32 v = (LEAST n. bit v n)"
proof -
  let ?k = "LEAST n. bit v n"
  note l = lowest_bit32 [OF assms]
  have "v AND - v = push_bit ?k 1"
  proof (rule bit_word_eqI)
    fix n assume n: "n < LENGTH(32)"
    have m: "- v = NOT (v - 1)" by (simp add: minus_eq_not_minus_1)
    consider "n < ?k" | "n = ?k" | "?k < n" by linarith
    then show "bit (v AND - v) n = bit (push_bit ?k 1 :: 32 word) n"
    proof cases
      case 1 then show ?thesis using l(3) [of n] by (auto simp add: bit_simps simp del: push_bit_Suc)
    next
      case 2 then show ?thesis using n l(1) by (auto simp add: m l(4) bit_simps simp del: push_bit_Suc)
    next
      case 3 then show ?thesis using n by (auto simp add: m l(4) bit_simps simp del: push_bit_Suc)
    qed
  qed
  then have "(v AND - v) - 1 = mask ?k" by (simp add: mask_eq_exp_minus_1 push_bit_eq_mult)
  then show ?thesis using l(2) by (simp add: getLowestBitPosition32_def popcnt32_mask)
qed

lemma lowest_bit:
  assumes "\<not> isEmpty b"
  shows "getLowestBitPosition b < 64" and "isSet b (getLowestBitPosition b)"
    and "\<And>n. n < getLowestBitPosition b \<Longrightarrow> \<not> isSet b n"
    and "popLowestBit b = clearBit b (getLowestBitPosition b)"
proof -
  let ?k = "getLowestBitPosition b"
  have "?k < 64 \<and> isSet b ?k \<and> (\<forall>n<?k. \<not> isSet b n) \<and> popLowestBit b = clearBit b ?k"
  proof (cases "low b = 0")
    case False
    define j where "j = (LEAST n. bit (low b) n)"
    note l = lowest_bit32 [OF False, folded j_def]
    have k: "?k = j"
      using False by (simp add: getLowestBitPosition_def getLowestBitPosition32_eq j_def)
    have "\<And>n. n < j \<Longrightarrow> \<not> isSet b n"
    proof -
      fix n assume "n < j"
      then show "\<not> isSet b n" using l(2) l(3) [of n] by (simp add: isSet_iff)
    qed
    moreover have "j < 64" "isSet b j" using l(1,2) by (simp_all add: isSet_iff)
    moreover have "popLowestBit b = clearBit b j"
      using False l(2) by (simp add: popLowestBit_def clearBit_def popLowestBit32_eq j_def)
    ultimately show ?thesis unfolding k by blast
  next
    case True
    with assms(1) have h: "high b \<noteq> 0" by (simp add: isEmpty_def)
    define j where "j = (LEAST n. bit (high b) n)"
    note l = lowest_bit32 [OF h, folded j_def]
    have k: "?k = 32 + j"
      using True h by (simp add: getLowestBitPosition_def getLowestBitPosition32_eq j_def)
    have "\<And>n. n < 32 + j \<Longrightarrow> \<not> isSet b n"
    proof -
      fix n assume n: "n < 32 + j"
      then have "n < 64" using l(2) by simp
      show "\<not> isSet b n"
      proof (cases "n < 32")
        case True with \<open>low b = 0\<close> show ?thesis by (simp add: isSet_iff)
      next
        case False
        then have "n - 32 < j" using n by simp
        then show ?thesis using l(3) [of "n - 32"] False \<open>n < 64\<close> by (simp add: isSet_iff)
      qed
    qed
    moreover have "32 + j < 64" "isSet b (32 + j)" using l(1,2) by (simp_all add: isSet_iff)
    moreover have "popLowestBit b = clearBit b (32 + j)"
      using True h l(2) by (simp add: popLowestBit_def clearBit_def popLowestBit32_eq j_def)
    ultimately show ?thesis unfolding k by blast
  qed
  then show "?k < 64" "isSet b ?k" "\<And>n. n < ?k \<Longrightarrow> \<not> isSet b n" "popLowestBit b = clearBit b ?k"
    by blast+
qed

lemma upt_split: "k < n \<Longrightarrow> [0..<n] = [0..<k] @ k # [Suc k..<n]"
proof -
  assume a: "k < n"
  then have "[0..<n] = [0..<k] @ [k..<n]"
    using upt_add_eq_append [of 0 k "n - k"] by simp
  also have "[k..<n] = k # [Suc k..<n]" using a by (simp add: upt_conv_Cons)
  finally show ?thesis .
qed

lemma bitIndices_eq: "bitIndices b = filter (isSet b) [0..<64]"
proof (induction b rule: bitIndices.induct)
  case (1 bb)
  show ?case
  proof (cases "isEmpty bb")
    case True
    then have "filter (isSet bb) [0..<64] = []"
      by (auto simp add: isEmpty_iff filter_empty_conv simp del: upt_rec_numeral)
    with True show ?thesis by (simp add: bitIndices.simps)
  next
    case False
    let ?k = "getLowestBitPosition bb"
    note l = lowest_bit [OF False]
    have split: "[0..<64] = [0..<?k] @ ?k # [Suc ?k..<64]"
      using l(1) by (rule upt_split)
    have a: "filter (isSet bb) [0..<?k] = []" using l(3) by (auto simp add: filter_empty_conv)
    have b: "filter (isSet (clearBit bb ?k)) [0..<?k] = []" using l(1,3) by (auto simp add: filter_empty_conv)
    have c: "filter (isSet (clearBit bb ?k)) [Suc ?k..<64] = filter (isSet bb) [Suc ?k..<64]"
      using l(1) by (intro filter_cong) (auto simp del: upt_rec_numeral)
    have "bitIndices bb = ?k # bitIndices (popLowestBit bb)" using False by (simp add: bitIndices.simps)
    also have "bitIndices (popLowestBit bb) = filter (isSet (clearBit bb ?k)) [0..<64]"
      using 1 False l(4) by simp
    also have "\<dots> = filter (isSet bb) [Suc ?k..<64]"
      by (subst split) (use l(1) in \<open>simp add: b c del: upt_rec_numeral\<close>)
    finally show ?thesis by (subst split) (simp add: a l(2) del: upt_rec_numeral)
  qed
qed

lemma set_bitIndices [simp]: "set (bitIndices b) = {i. i < 64 \<and> isSet b i}"
  by (auto simp add: bitIndices_eq simp del: upt_rec_numeral)

lemma distinct_bitIndices [simp]: "distinct (bitIndices b)"
  by (simp add: bitIndices_eq del: upt_rec_numeral)

lemma getLowestBitPosition_empty: "isEmpty b \<Longrightarrow> getLowestBitPosition b = 64"
proof -
  have "(mask 32 :: 32 word) = - 1" by (simp add: mask_eq_exp_minus_1)
  then have "popcnt32 (- 1) = 32" using popcnt32_mask [of 32] by simp
  moreover assume "isEmpty b"
  ultimately show ?thesis
    by (simp add: isEmpty_def getLowestBitPosition_def getLowestBitPosition32_def)
qed

lemma getLowestBitPosition_less_iff: "getLowestBitPosition b < 64 \<longleftrightarrow> \<not> isEmpty b"
  using lowest_bit(1) [of b] getLowestBitPosition_empty [of b] by auto

section \<open>The board that the bitboards stand for\<close>

definition pieceOn :: "position \<Rightarrow> nat \<Rightarrow> nat \<Rightarrow> bool" where
  "pieceOn p piece i \<longleftrightarrow> isSet (bitboards p ! piece) i"

definition colorOn :: "position \<Rightarrow> color \<Rightarrow> nat \<Rightarrow> bool" where
  "colorOn p color i \<longleftrightarrow> isSet (bitboards p ! (6 + cnum color)) i"

text \<open>What stands on square \<open>i\<close>: the first piece type whose board has the bit, with its colour.\<close>

definition board :: "position \<Rightarrow> nat \<Rightarrow> (nat \<times> color) option" where
  "board p i =
     (case find (\<lambda>piece. pieceOn p piece i) [0..<6] of
        None \<Rightarrow> None
      | Some piece \<Rightarrow> Some (piece, if colorOn p WHITE i then WHITE else BLACK))"

text \<open>
  The invariants (a), (b), (c) and (e) of the data model: the bitboards describe one
  board (each square empty or holding one piece of one colour) and \<open>pieces\<close> agrees.
\<close>

definition boards_ok :: "position \<Rightarrow> bool" where
  "boards_ok p \<longleftrightarrow>
     length (bitboards p) = 8
     \<and> (\<forall>i<64. \<forall>piece<6. pieceOn p piece i \<longleftrightarrow> (\<exists>c. board p i = Some (piece, c)))
     \<and> (\<forall>i<64. \<forall>c. colorOn p c i \<longleftrightarrow> (\<exists>piece. board p i = Some (piece, c)))
     \<and> pieces p = (\<lambda>index. if 0 \<le> index \<and> index < 64 then map_option fst (board p (nat index)) else None)"

lemma find_upt_Some: "find P [0..<n] = Some k \<longleftrightarrow> k < n \<and> P k \<and> (\<forall>j<k. \<not> P j)"
  by (auto simp add: find_Some_iff)

lemma find_upt_None: "find P [0..<n] = None \<longleftrightarrow> (\<forall>j<n. \<not> P j)"
  by (auto simp add: find_None_iff)

lemma board_piece_less: "board p i = Some (piece, c) \<Longrightarrow> piece < 6"
  by (auto simp add: board_def find_upt_Some split: option.splits)

lemma boards_okI:
  assumes len: "length (bitboards p) = 8"
    and pc: "\<And>i piece. i < 64 \<Longrightarrow> piece < 6 \<Longrightarrow> pieceOn p piece i \<longleftrightarrow> (\<exists>c. brd i = Some (piece, c))"
    and col: "\<And>i c. i < 64 \<Longrightarrow> colorOn p c i \<longleftrightarrow> (\<exists>piece. brd i = Some (piece, c))"
    and lt: "\<And>i piece c. i < 64 \<Longrightarrow> brd i = Some (piece, c) \<Longrightarrow> piece < 6"
    and tab: "\<And>i. i < 64 \<Longrightarrow> pieces p (int i) = map_option fst (brd i)"
    and out: "\<And>index. index < 0 \<or> 64 \<le> index \<Longrightarrow> pieces p index = None"
  shows "boards_ok p" and "\<And>i. i < 64 \<Longrightarrow> board p i = brd i"
proof -
  show b: "\<And>i. i < 64 \<Longrightarrow> board p i = brd i"
  proof -
    fix i :: nat assume i: "i < 64"
    show "board p i = brd i"
    proof (cases "brd i")
      case None
      then have "\<forall>piece<6. \<not> pieceOn p piece i" using pc [OF i] by simp
      then have "find (\<lambda>piece. pieceOn p piece i) [0..<6] = None" by (simp only: find_upt_None)
      then show ?thesis using None by (simp add: board_def)
    next
      case (Some a)
      obtain piece c where a: "a = (piece, c)" by (cases a)
      have l: "piece < 6" using lt [OF i] Some a by simp
      have "find (\<lambda>piece. pieceOn p piece i) [0..<6] = Some piece"
        unfolding find_upt_Some using pc [OF i] Some a l by auto
      moreover have "colorOn p WHITE i \<longleftrightarrow> c = WHITE" using col [OF i, of WHITE] Some a by auto
      ultimately show ?thesis using Some a by (cases c) (simp_all add: board_def)
    qed
  qed
  have "pieces p = (\<lambda>index. if 0 \<le> index \<and> index < 64 then map_option fst (board p (nat index)) else None)"
  proof
    fix index :: int
    show "pieces p index = (if 0 \<le> index \<and> index < 64 then map_option fst (board p (nat index)) else None)"
    proof (cases "0 \<le> index \<and> index < 64")
      case True
      then have "nat index < 64" by linarith
      then show ?thesis using True tab [of "nat index"] b [of "nat index"] by simp
    next
      case False then show ?thesis using out [of index] by auto
    qed
  qed
  then show "boards_ok p" unfolding boards_ok_def using len pc col b by simp
qed

lemma boards_okD:
  assumes "boards_ok p"
  shows "length (bitboards p) = 8"
    and "\<And>i piece. i < 64 \<Longrightarrow> piece < 6 \<Longrightarrow> pieceOn p piece i \<longleftrightarrow> (\<exists>c. board p i = Some (piece, c))"
    and "\<And>i c. i < 64 \<Longrightarrow> colorOn p c i \<longleftrightarrow> (\<exists>piece. board p i = Some (piece, c))"
    and "\<And>i. i < 64 \<Longrightarrow> pieces p (int i) = map_option fst (board p i)"
    and "\<And>index. index < 0 \<or> 64 \<le> index \<Longrightarrow> pieces p index = None"
proof -
  show "length (bitboards p) = 8" using assms by (simp add: boards_ok_def)
  show "\<And>i piece. i < 64 \<Longrightarrow> piece < 6 \<Longrightarrow> pieceOn p piece i \<longleftrightarrow> (\<exists>c. board p i = Some (piece, c))"
    using assms by (simp add: boards_ok_def)
  show "\<And>i c. i < 64 \<Longrightarrow> colorOn p c i \<longleftrightarrow> (\<exists>piece. board p i = Some (piece, c))"
    using assms by (simp add: boards_ok_def)
  have t: "pieces p = (\<lambda>index. if 0 \<le> index \<and> index < 64 then map_option fst (board p (nat index)) else None)"
    using assms by (simp add: boards_ok_def)
  show "\<And>i. i < 64 \<Longrightarrow> pieces p (int i) = map_option fst (board p i)" by (subst t) simp
  show "\<And>index. index < 0 \<or> 64 \<le> index \<Longrightarrow> pieces p index = None" by (subst t) auto
qed

lemma occupied_iff:
  "boards_ok p \<Longrightarrow> i < 64 \<Longrightarrow> isSet (getOccupiedBitboard p) i \<longleftrightarrow> board p i \<noteq> None"
  using boards_okD(3) [of p i WHITE] boards_okD(3) [of p i BLACK]
  by (auto simp add: getOccupiedBitboard_def colorOn_def) (metis color.exhaust)

lemma getColorBitboard_iff:
  "boards_ok p \<Longrightarrow> i < 64 \<Longrightarrow> isSet (getColorBitboard p c) i \<longleftrightarrow> (\<exists>piece. board p i = Some (piece, c))"
  using boards_okD(3) [of p i c] by (simp add: getColorBitboard_def colorOn_def)

lemma getPieceColorBitboard_iff:
  "boards_ok p \<Longrightarrow> i < 64 \<Longrightarrow> piece < 6 \<Longrightarrow>
     isSet (getPieceColorBitboard p piece c) i \<longleftrightarrow> board p i = Some (piece, c)"
  using boards_okD(2) [of p i piece] boards_okD(3) [of p i c]
  by (auto simp add: getPieceColorBitboard_def getColorBitboard_def colorOn_def pieceOn_def)

lemma u32_int [simp]: "u32 (int i) = i mod 4294967296"
  by (simp add: u32_def nat_mod_distrib)

lemma u32_small: "0 \<le> q \<Longrightarrow> q < 64 \<Longrightarrow> u32 q = nat q"
  by (simp add: u32_def)

lemma boards_eqI:
  assumes "boards_ok p" "boards_ok p'" and eq: "\<And>i. i < 64 \<Longrightarrow> board p i = board p' i"
  shows "bitboards p = bitboards p'" and "pieces p = pieces p'"
proof -
  note d = boards_okD [OF assms(1)] and d' = boards_okD [OF assms(2)]
  show "bitboards p = bitboards p'"
  proof (rule nth_equalityI)
    show "length (bitboards p) = length (bitboards p')" using d(1) d'(1) by simp
  next
    fix j assume "j < length (bitboards p)"
    then have j: "j < 8" using d(1) by simp
    show "bitboards p ! j = bitboards p' ! j"
    proof (rule bb_eqI)
      fix i :: nat assume i: "i < 64"
      show "isSet (bitboards p ! j) i = isSet (bitboards p' ! j) i"
      proof (cases "j < 6")
        case True
        then show ?thesis using d(2) [OF i True] d'(2) [OF i True] eq [OF i] by (simp add: pieceOn_def)
      next
        case False
        with j have "j = 6 + cnum WHITE \<or> j = 6 + cnum BLACK" by auto
        then obtain c where c: "j = 6 + cnum c" by blast
        show ?thesis unfolding c using d(3) [OF i, of c] d'(3) [OF i, of c] eq [OF i]
          by (simp add: colorOn_def)
      qed
    qed
  qed
  show "pieces p = pieces p'"
  proof
    fix index :: int
    show "pieces p index = pieces p' index"
    proof (cases "0 \<le> index \<and> index < 64")
      case True
      then have n: "nat index < 64" by linarith
      from True have "int (nat index) = index" by simp
      then show ?thesis using d(4) [OF n] d'(4) [OF n] eq [OF n] by simp
    next
      case False
      then show ?thesis using d(5) [of index] d'(5) [of index] by auto
    qed
  qed
qed

subsection \<open>What the four primitive changes do to the board\<close>

lemma cnum_eq_iff [simp]: "cnum c = cnum c' \<longleftrightarrow> c = c'"
  by (cases c; cases c') simp_all

lemma cnum_less [simp]: "cnum c < 2"
  by (cases c) simp_all

lemma capturePiece_bits:
  assumes "length (bitboards p) = 8" "piece < 6" "0 \<le> q" "q < 64" "i < 64"
  shows "pc < 6 \<Longrightarrow> pieceOn (capturePiece rv p piece color q) pc i
           \<longleftrightarrow> pieceOn p pc i \<and> \<not> (pc = piece \<and> i = nat q)"
    and "colorOn (capturePiece rv p piece color q) c i
           \<longleftrightarrow> colorOn p c i \<and> \<not> (c = color \<and> i = nat q)"
proof -
  have n: "nat q < 64" using assms by linarith
  show "pc < 6 \<Longrightarrow> pieceOn (capturePiece rv p piece color q) pc i
           \<longleftrightarrow> pieceOn p pc i \<and> \<not> (pc = piece \<and> i = nat q)"
    using assms n by (auto simp add: capturePiece_def Let_def pieceOn_def u32_small nth_list_update)
  show "colorOn (capturePiece rv p piece color q) c i
           \<longleftrightarrow> colorOn p c i \<and> \<not> (c = color \<and> i = nat q)"
    using assms n by (auto simp add: capturePiece_def Let_def colorOn_def u32_small nth_list_update)
qed

lemma boards_ok_boardI:
  assumes "length (bitboards p) = 8"
    and "\<And>i piece. i < 64 \<Longrightarrow> piece < 6 \<Longrightarrow> pieceOn p piece i \<longleftrightarrow> (\<exists>c. brd i = Some (piece, c))"
    and "\<And>i c. i < 64 \<Longrightarrow> colorOn p c i \<longleftrightarrow> (\<exists>piece. brd i = Some (piece, c))"
    and "\<And>i piece c. i < 64 \<Longrightarrow> brd i = Some (piece, c) \<Longrightarrow> piece < 6"
    and "\<And>i. i < 64 \<Longrightarrow> pieces p (int i) = map_option fst (brd i)"
    and "\<And>index. index < 0 \<or> 64 \<le> index \<Longrightarrow> pieces p index = None"
  shows "boards_ok p \<and> (\<forall>i<64. board p i = brd i)"
proof (intro conjI allI impI)
  show "boards_ok p" using assms by (rule boards_okI(1))
  fix i :: nat assume "i < 64"
  with assms show "board p i = brd i" by (rule boards_okI(2))
qed

lemma capturePiece_board:
  assumes ok: "boards_ok p" and q: "0 \<le> q" "q < 64" and at: "board p (nat q) = Some (piece, color)"
  shows "boards_ok (capturePiece rv p piece color q)
         \<and> (\<forall>i<64. board (capturePiece rv p piece color q) i = ((board p)(nat q := None)) i)"
proof (rule boards_ok_boardI)
  note d = boards_okD [OF ok]
  let ?p = "capturePiece rv p piece color q"
  let ?b = "(board p)(nat q := None)"
  have pl: "piece < 6" using at by (rule board_piece_less)
  note bits = capturePiece_bits [OF d(1) pl q, where rv = rv and color = color]
  show "length (bitboards ?p) = 8" using d(1) by (simp add: capturePiece_def Let_def)
  show "\<And>i pc. i < 64 \<Longrightarrow> pc < 6 \<Longrightarrow> pieceOn ?p pc i \<longleftrightarrow> (\<exists>c. ?b i = Some (pc, c))"
    using d(2) at by (auto simp add: bits(1))
  show "\<And>i c. i < 64 \<Longrightarrow> colorOn ?p c i \<longleftrightarrow> (\<exists>pc. ?b i = Some (pc, c))"
    using d(3) at by (auto simp add: bits(2))
  show "\<And>i pc c. i < 64 \<Longrightarrow> ?b i = Some (pc, c) \<Longrightarrow> pc < 6"
    by (auto dest: board_piece_less split: if_splits)
  show "\<And>i. i < 64 \<Longrightarrow> pieces ?p (int i) = map_option fst (?b i)"
    using d(4) q by (auto simp add: capturePiece_def Let_def)
  show "\<And>index. index < 0 \<or> 64 \<le> index \<Longrightarrow> pieces ?p index = None"
    using d(5) by (auto simp add: capturePiece_def Let_def)
qed

lemma unCapturePiece_bits:
  assumes "length (bitboards p) = 8" "piece < 6" "0 \<le> q" "q < 64" "i < 64"
  shows "pc < 6 \<Longrightarrow> pieceOn (unCapturePiece rv p piece color q) pc i
           \<longleftrightarrow> pieceOn p pc i \<or> (pc = piece \<and> i = nat q)"
    and "colorOn (unCapturePiece rv p piece color q) c i
           \<longleftrightarrow> colorOn p c i \<or> (c = color \<and> i = nat q)"
proof -
  have n: "nat q < 64" using assms by linarith
  show "pc < 6 \<Longrightarrow> pieceOn (unCapturePiece rv p piece color q) pc i
           \<longleftrightarrow> pieceOn p pc i \<or> (pc = piece \<and> i = nat q)"
    using assms n by (auto simp add: unCapturePiece_def Let_def pieceOn_def u32_small nth_list_update)
  show "colorOn (unCapturePiece rv p piece color q) c i
           \<longleftrightarrow> colorOn p c i \<or> (c = color \<and> i = nat q)"
    using assms n by (auto simp add: unCapturePiece_def Let_def colorOn_def u32_small nth_list_update)
qed

lemma unCapturePiece_board:
  assumes ok: "boards_ok p" and q: "0 \<le> q" "q < 64" and at: "board p (nat q) = None" and pl: "piece < 6"
  shows "boards_ok (unCapturePiece rv p piece color q)
         \<and> (\<forall>i<64. board (unCapturePiece rv p piece color q) i = ((board p)(nat q := Some (piece, color))) i)"
proof (rule boards_ok_boardI)
  note d = boards_okD [OF ok]
  let ?p = "unCapturePiece rv p piece color q"
  let ?b = "(board p)(nat q := Some (piece, color))"
  note bits = unCapturePiece_bits [OF d(1) pl q, where rv = rv and color = color]
  show "length (bitboards ?p) = 8" using d(1) by (simp add: unCapturePiece_def Let_def)
  show "\<And>i pc. i < 64 \<Longrightarrow> pc < 6 \<Longrightarrow> pieceOn ?p pc i \<longleftrightarrow> (\<exists>c. ?b i = Some (pc, c))"
    using d(2) at by (auto simp add: bits(1))
  show "\<And>i c. i < 64 \<Longrightarrow> colorOn ?p c i \<longleftrightarrow> (\<exists>pc. ?b i = Some (pc, c))"
    using d(3) at by (auto simp add: bits(2))
  show "\<And>i pc c. i < 64 \<Longrightarrow> ?b i = Some (pc, c) \<Longrightarrow> pc < 6"
    using pl by (auto dest: board_piece_less split: if_splits)
  show "\<And>i. i < 64 \<Longrightarrow> pieces ?p (int i) = map_option fst (?b i)"
    using d(4) q by (auto simp add: unCapturePiece_def Let_def)
  show "\<And>index. index < 0 \<or> 64 \<le> index \<Longrightarrow> pieces ?p index = None"
    using d(5) q by (auto simp add: unCapturePiece_def Let_def)
qed

lemma movePiece_bits:
  assumes "length (bitboards p) = 8" "piece < 6" "f < 64" "t < 64" "i < 64"
  shows "pc < 6 \<Longrightarrow> pieceOn (movePiece rv p piece color f t) pc i
           \<longleftrightarrow> (pieceOn p pc i \<noteq> (pc = piece \<and> (i = f \<or> i = t)))"
    and "colorOn (movePiece rv p piece color f t) c i
           \<longleftrightarrow> (colorOn p c i \<noteq> (c = color \<and> (i = f \<or> i = t)))"
proof -
  show "pc < 6 \<Longrightarrow> pieceOn (movePiece rv p piece color f t) pc i
           \<longleftrightarrow> (pieceOn p pc i \<noteq> (pc = piece \<and> (i = f \<or> i = t)))"
    using assms by (auto simp add: movePiece_def Let_def pieceOn_def nth_list_update)
  show "colorOn (movePiece rv p piece color f t) c i
           \<longleftrightarrow> (colorOn p c i \<noteq> (c = color \<and> (i = f \<or> i = t)))"
    using assms by (auto simp add: movePiece_def Let_def colorOn_def nth_list_update)
qed

lemma movePiece_board:
  assumes ok: "boards_ok p" and f: "f < 64" and t: "t < 64" and ne: "f \<noteq> t"
    and at: "board p f = Some (piece, color)" and em: "board p t = None"
  shows "boards_ok (movePiece rv p piece color f t)
         \<and> (\<forall>i<64. board (movePiece rv p piece color f t) i
                     = ((board p)(f := None, t := Some (piece, color))) i)"
proof (rule boards_ok_boardI)
  note d = boards_okD [OF ok]
  let ?p = "movePiece rv p piece color f t"
  let ?b = "(board p)(f := None, t := Some (piece, color))"
  have pl: "piece < 6" using at by (rule board_piece_less)
  note bits = movePiece_bits [OF d(1) pl f t, where rv = rv and color = color]
  show "length (bitboards ?p) = 8" using d(1) by (simp add: movePiece_def Let_def)
  show "\<And>i pc. i < 64 \<Longrightarrow> pc < 6 \<Longrightarrow> pieceOn ?p pc i \<longleftrightarrow> (\<exists>c. ?b i = Some (pc, c))"
    using d(2) at em ne by (auto simp add: bits(1))
  show "\<And>i c. i < 64 \<Longrightarrow> colorOn ?p c i \<longleftrightarrow> (\<exists>pc. ?b i = Some (pc, c))"
    using d(3) at em ne by (auto simp add: bits(2))
  show "\<And>i pc c. i < 64 \<Longrightarrow> ?b i = Some (pc, c) \<Longrightarrow> pc < 6"
    using pl by (auto dest: board_piece_less split: if_splits)
  show "\<And>i. i < 64 \<Longrightarrow> pieces ?p (int i) = map_option fst (?b i)"
    using d(4) by (auto simp add: movePiece_def Let_def)
  show "\<And>index. index < 0 \<or> 64 \<le> index \<Longrightarrow> pieces ?p index = None"
    using d(5) f t by (auto simp add: movePiece_def Let_def)
qed

lemma promotePiece_bits:
  assumes "length (bitboards p) = 8" "pieceOld < 6" "pieceNew < 6" "t < 64" "i < 64"
  shows "pc < 6 \<Longrightarrow> pieceOn (promotePiece rv p pieceOld pieceNew color t) pc i
           \<longleftrightarrow> (if i = t \<and> pc = pieceNew then True
                else if i = t \<and> pc = pieceOld then False else pieceOn p pc i)"
    and "colorOn (promotePiece rv p pieceOld pieceNew color t) c i \<longleftrightarrow> colorOn p c i"
proof -
  show "pc < 6 \<Longrightarrow> pieceOn (promotePiece rv p pieceOld pieceNew color t) pc i
           \<longleftrightarrow> (if i = t \<and> pc = pieceNew then True
                else if i = t \<and> pc = pieceOld then False else pieceOn p pc i)"
    using assms by (auto simp add: promotePiece_def Let_def pieceOn_def nth_list_update)
  show "colorOn (promotePiece rv p pieceOld pieceNew color t) c i \<longleftrightarrow> colorOn p c i"
    using assms by (cases c) (auto simp add: promotePiece_def Let_def colorOn_def nth_list_update)
qed

lemma promotePiece_board:
  assumes ok: "boards_ok p" and t: "t < 64" and at: "board p t = Some (pieceOld, color)"
    and pl: "pieceNew < 6"
  shows "boards_ok (promotePiece rv p pieceOld pieceNew color t)
         \<and> (\<forall>i<64. board (promotePiece rv p pieceOld pieceNew color t) i
                     = ((board p)(t := Some (pieceNew, color))) i)"
proof (rule boards_ok_boardI)
  note d = boards_okD [OF ok]
  let ?p = "promotePiece rv p pieceOld pieceNew color t"
  let ?b = "(board p)(t := Some (pieceNew, color))"
  have po: "pieceOld < 6" using at by (rule board_piece_less)
  note bits = promotePiece_bits [OF d(1) po pl t, where rv = rv and color = color]
  show "length (bitboards ?p) = 8" using d(1) by (simp add: promotePiece_def Let_def)
  show "\<And>i pc. i < 64 \<Longrightarrow> pc < 6 \<Longrightarrow> pieceOn ?p pc i \<longleftrightarrow> (\<exists>c. ?b i = Some (pc, c))"
    using d(2) at by (auto simp add: bits(1))
  show "\<And>i c. i < 64 \<Longrightarrow> colorOn ?p c i \<longleftrightarrow> (\<exists>pc. ?b i = Some (pc, c))"
    using d(3) at by (auto simp add: bits(2))
  show "\<And>i pc c. i < 64 \<Longrightarrow> ?b i = Some (pc, c) \<Longrightarrow> pc < 6"
    using pl by (auto dest: board_piece_less split: if_splits)
  show "\<And>i. i < 64 \<Longrightarrow> pieces ?p (int i) = map_option fst (?b i)"
    using d(4) by (auto simp add: promotePiece_def Let_def)
  show "\<And>index. index < 0 \<or> 64 \<le> index \<Longrightarrow> pieces ?p index = None"
    using d(5) t by (auto simp add: promotePiece_def Let_def)
qed

section \<open>Hash values as a group under exclusive or\<close>

datatype hashval = HashVal "32 word" "32 word"

instantiation hashval :: ab_group_add
begin

definition zero_hashval :: hashval where
  "zero_hashval = HashVal 0 0"

fun plus_hashval :: "hashval \<Rightarrow> hashval \<Rightarrow> hashval" where
  "plus_hashval (HashVal a b) (HashVal c d) = HashVal (a XOR c) (b XOR d)"

definition uminus_hashval :: "hashval \<Rightarrow> hashval" where
  "uminus_hashval x = x"

definition minus_hashval :: "hashval \<Rightarrow> hashval \<Rightarrow> hashval" where
  "minus_hashval x y = x + y"

instance
proof
  fix a b c :: hashval
  show "a + b + c = a + (b + c)" by (cases a; cases b; cases c) (simp add: ac_simps)
  show "a + b = b + a" by (cases a; cases b) (simp add: ac_simps)
  show "0 + a = a" by (cases a) (simp add: zero_hashval_def)
  show "- a + a = 0" by (cases a) (simp add: zero_hashval_def uminus_hashval_def)
  show "a - b = a + - b" by (simp add: minus_hashval_def uminus_hashval_def)
qed

end

lemma hashval_double [simp]: "x + x = (0 :: hashval)"
  by (cases x) (simp add: zero_hashval_def)

lemma hashval_double' [simp]: "x + (x + y) = (y :: hashval)"
  by (simp flip: add.assoc)

definition hv :: "zobrist \<Rightarrow> hashval" where
  "hv z = HashVal (zlow z) (zhigh z)"

definition key :: "(int \<Rightarrow> 32 word) \<Rightarrow> int \<Rightarrow> hashval" where
  "key rv position = HashVal (rv position) (rv (position + 1))"

definition pieceKey :: "(int \<Rightarrow> 32 word) \<Rightarrow> nat \<Rightarrow> color \<Rightarrow> int \<Rightarrow> hashval" where
  "pieceKey rv piece color index = key rv (2 + int piece + int (cnum color) * 6 + index * 6 * 2)"

lemma hv_inject: "hv z = hv z' \<longleftrightarrow> z = z'"
  by (cases z; cases z') (simp add: hv_def)

lemma hv_update [simp]: "hv (update rv z position) = hv z + key rv position"
  by (simp add: hv_def update_def key_def)

lemma hv_updatePieceColorSquare [simp]:
  "hv (updatePieceColorSquare rv z piece color index) = hv z + pieceKey rv piece color index"
  by (simp add: updatePieceColorSquare_def pieceKey_def)

lemma hv_updateTurn [simp]: "hv (updateTurn rv z) = hv z + key rv 0"
  by (simp add: updateTurn_def)

lemma hv_updateCastlingRights [simp]:
  "hv (updateCastlingRights rv z rights) = hv z + key rv (1538 + rights)"
  by (simp add: updateCastlingRights_def)

definition epKey :: "(int \<Rightarrow> 32 word) \<Rightarrow> int \<Rightarrow> hashval" where
  "epKey rv ep = (if ep \<ge> 0 then key rv (1570 + getFile ep) else 0)"

lemma hv_updateEnPassantSquare [simp]:
  "hv (updateEnPassantSquare rv z ep) = hv z + epKey rv ep"
  by (simp add: updateEnPassantSquare_def updateEnPassantFile_def epKey_def)

lemma hv_zero [simp]: "hv \<lparr>zlow = 0, zhigh = 0\<rparr> = 0"
  by (simp add: hv_def zero_hashval_def)

section \<open>Changing the pieces and changing them back\<close>

subsection \<open>The fields that the piece changes leave alone\<close>

definition same_frame :: "position \<Rightarrow> position \<Rightarrow> bool" where
  "same_frame p p' \<longleftrightarrow>
     turn p' = turn p \<and> castlingRights p' = castlingRights p \<and> enPassantSquare p' = enPassantSquare p
     \<and> halfmoveClock p' = halfmoveClock p \<and> madeMoves p' = madeMoves p
     \<and> irreversibleHistory p' = irreversibleHistory p \<and> hashHistory p' = hashHistory p
     \<and> halfMoveClock p' = halfMoveClock p"

lemma same_frame_refl [simp]: "same_frame p p"
  by (simp add: same_frame_def)

lemma same_frame_trans: "same_frame p p' \<Longrightarrow> same_frame p' p'' \<Longrightarrow> same_frame p p''"
  by (simp add: same_frame_def)

lemma same_frame_primitives [simp]:
  "same_frame p (capturePiece rv p1 piece color q) \<longleftrightarrow> same_frame p p1"
  "same_frame p (unCapturePiece rv p1 piece color q) \<longleftrightarrow> same_frame p p1"
  "same_frame p (movePiece rv p1 piece color f t) \<longleftrightarrow> same_frame p p1"
  "same_frame p (promotePiece rv p1 pieceOld pieceNew color t) \<longleftrightarrow> same_frame p p1"
  "same_frame p (castleRook rv p1 color kingSide) \<longleftrightarrow> same_frame p p1"
  "same_frame p (unCastleRook rv p1 color kingSide) \<longleftrightarrow> same_frame p p1"
  by (simp_all add: same_frame_def capturePiece_def unCapturePiece_def movePiece_def promotePiece_def
      castleRook_def unCastleRook_def Let_def)

lemma same_frame_updatePieces [simp]: "same_frame p (updatePieces rv p1 m) \<longleftrightarrow> same_frame p p1"
  by (simp add: updatePieces_def Let_def)

lemma same_frame_revertPieces [simp]: "same_frame p (revertPieces rv p1 m) \<longleftrightarrow> same_frame p p1"
  by (simp add: revertPieces_def Let_def)

lemma turn_primitives [simp]:
  "turn (capturePiece rv p piece color q) = turn p"
  "turn (unCapturePiece rv p piece color q) = turn p"
  "turn (movePiece rv p piece color f t) = turn p"
  "turn (promotePiece rv p pieceOld pieceNew color t) = turn p"
  "turn (castleRook rv p color kingSide) = turn p"
  "turn (unCastleRook rv p color kingSide) = turn p"
  "turn (updatePieces rv p m) = turn p"
  "turn (revertPieces rv p m) = turn p"
  using same_frame_primitives [of p rv p] same_frame_updatePieces [of p rv p m]
    same_frame_revertPieces [of p rv p m]
  by (simp_all add: same_frame_def)

lemma position_eqI:
  "same_frame p p' \<Longrightarrow> bitboards p = bitboards p' \<Longrightarrow> pieces p = pieces p' \<Longrightarrow> hashKey p = hashKey p'
     \<Longrightarrow> p = (p' :: position)"
  by (simp add: same_frame_def)

lemmas frameD = same_frame_def [THEN iffD1]

subsection \<open>The hash after the piece changes\<close>

definition rookFrom :: "color \<Rightarrow> nat \<Rightarrow> nat" where
  "rookFrom c kind = getCastlingRookSquare c (kind = KING_CASTLE)"

definition rookTo :: "color \<Rightarrow> nat \<Rightarrow> nat" where
  "rookTo c kind = (if kind = KING_CASTLE then rookFrom c kind - 2 else rookFrom c kind + 3)"

lemma rookFrom_simps:
  "rookFrom WHITE 2 = 7" "rookFrom BLACK 2 = 63" "rookFrom WHITE 3 = 0" "rookFrom BLACK 3 = 56"
  "rookTo WHITE 2 = 5" "rookTo BLACK 2 = 61" "rookTo WHITE 3 = 3" "rookTo BLACK 3 = 59"
  by (simp_all add: rookFrom_def rookTo_def getCastlingRookSquare_def getCastlingIndex_def ROOK_INDICES_def)

lemma castleRook_eq:
  "castleRook rv p c kingSide
     = movePiece rv p ROOK c (rookFrom c (if kingSide then 2 else 3)) (rookTo c (if kingSide then 2 else 3))"
  by (cases c) (auto simp add: castleRook_def rookFrom_def rookTo_def getCastlingRookSquare_def
      getCastlingIndex_def ROOK_INDICES_def Let_def u32_def)

lemma unCastleRook_eq:
  "unCastleRook rv p c kingSide
     = movePiece rv p ROOK c (rookTo c (if kingSide then 2 else 3)) (rookFrom c (if kingSide then 2 else 3))"
  by (cases c) (auto simp add: unCastleRook_def rookFrom_def rookTo_def getCastlingRookSquare_def
      getCastlingIndex_def ROOK_INDICES_def Let_def u32_def)

definition piecesDelta :: "(int \<Rightarrow> 32 word) \<Rightarrow> color \<Rightarrow> move \<Rightarrow> hashval" where
  "piecesDelta rv c m =
     (if isCapture m then pieceKey rv (getCapturedPiece m) (getOtherPieceColor c) (getCaptureSquare m) else 0)
     + (if isCastle m then pieceKey rv ROOK c (int (rookFrom c (getKind m)))
                           + pieceKey rv ROOK c (int (rookTo c (getKind m))) else 0)
     + pieceKey rv (getPiece m) c (int (getFrom m)) + pieceKey rv (getPiece m) c (int (getTo m))
     + (if isPromotion m then pieceKey rv PAWN c (int (getTo m))
                              + pieceKey rv (getPromotedPiece m) c (int (getTo m)) else 0)"

lemma hv_primitives [simp]:
  "hv (hashKey (capturePiece rv p piece color q)) = hv (hashKey p) + pieceKey rv piece color q"
  "hv (hashKey (unCapturePiece rv p piece color q)) = hv (hashKey p) + pieceKey rv piece color q"
  "hv (hashKey (movePiece rv p piece color f t))
     = hv (hashKey p) + pieceKey rv piece color (int f) + pieceKey rv piece color (int t)"
  "hv (hashKey (promotePiece rv p pieceOld pieceNew color t))
     = hv (hashKey p) + pieceKey rv pieceOld color (int t) + pieceKey rv pieceNew color (int t)"
  by (simp_all add: capturePiece_def unCapturePiece_def movePiece_def promotePiece_def Let_def)

lemma hv_updatePieces: "hv (hashKey (updatePieces rv p m)) = hv (hashKey p) + piecesDelta rv (turn p) m"
  by (auto simp add: updatePieces_def piecesDelta_def Let_def getTurnColor_def isCastle_def castleRook_eq
      ac_simps)

lemma hv_revertPieces: "hv (hashKey (revertPieces rv p m)) = hv (hashKey p) + piecesDelta rv (turn p) m"
  by (auto simp add: revertPieces_def piecesDelta_def Let_def getTurnColor_def isCastle_def unCastleRook_eq
      ac_simps)

subsection \<open>Moves that fit the board\<close>

text \<open>
  What a move must say about the position for \<open>updatePieces\<close> to do what the move
  means: the moving piece stands on the source square, the captured piece on the
  capture square, the destination is otherwise empty, and a castle finds its rook.
\<close>

definition move_ok :: "position \<Rightarrow> move \<Rightarrow> bool" where
  "move_ok p m \<longleftrightarrow>
     board p (getFrom m) = Some (getPiece m, turn p)
     \<and> getFrom m \<noteq> getTo m
     \<and> getKind m \<noteq> 6 \<and> getKind m \<noteq> 7
     \<and> (if getKind m = EN_PASSANT_CAPTURE then
           getPiece m = PAWN \<and> getCapturedPiece m = PAWN \<and> board p (getTo m) = None
           \<and> 0 \<le> getCaptureSquare m \<and> getCaptureSquare m < 64
           \<and> board p (nat (getCaptureSquare m)) = Some (PAWN, getOtherPieceColor (turn p))
         else if isCapture m then
           board p (getTo m) = Some (getCapturedPiece m, getOtherPieceColor (turn p))
         else board p (getTo m) = None \<and> getCapturedPiece m = PAWN)
     \<and> (isPromotion m \<longrightarrow> getPiece m = PAWN)
     \<and> (isCastle m \<longrightarrow>
           getPiece m = KING \<and> getFrom m = kingHome (turn p)
           \<and> getTo m = (if getKind m = KING_CASTLE then kingHome (turn p) + 2 else kingHome (turn p) - 2)
           \<and> board p (rookFrom (turn p) (getKind m)) = Some (ROOK, turn p)
           \<and> board p (rookTo (turn p) (getKind m)) = None)"

definition boardAfter :: "position \<Rightarrow> move \<Rightarrow> nat \<Rightarrow> (nat \<times> color) option" where
  "boardAfter p m =
     (let b1 = (if isCapture m then (board p)(nat (getCaptureSquare m) := None) else board p);
          b2 = (if isCastle m
                then b1(rookFrom (turn p) (getKind m) := None,
                        rookTo (turn p) (getKind m) := Some (ROOK, turn p))
                else b1)
      in b2(getFrom m := None,
            getTo m := Some (if isPromotion m then getPromotedPiece m else getPiece m, turn p)))"

lemma kind_cases:
  assumes "getKind m \<noteq> 6" "getKind m \<noteq> 7"
  obtains "getKind m = 0" | "getKind m = 1" | "getKind m = 2" | "getKind m = 3" | "getKind m = 4"
    | "getKind m = 5" | "getKind m = 8" | "getKind m = 9" | "getKind m = 10" | "getKind m = 11"
    | "getKind m = 12" | "getKind m = 13" | "getKind m = 14" | "getKind m = 15"
proof -
  have "getKind m < 16" by simp
  with assms have "getKind m = 0 \<or> getKind m = 1 \<or> getKind m = 2 \<or> getKind m = 3 \<or> getKind m = 4
    \<or> getKind m = 5 \<or> getKind m = 8 \<or> getKind m = 9 \<or> getKind m = 10 \<or> getKind m = 11
    \<or> getKind m = 12 \<or> getKind m = 13 \<or> getKind m = 14 \<or> getKind m = 15" by arith
  then show ?thesis using that by blast
qed

lemma kind_flags:
  "getKind m = 0 \<Longrightarrow> \<not> isCapture m \<and> \<not> isPromotion m \<and> \<not> isCastle m"
  "getKind m = 1 \<Longrightarrow> \<not> isCapture m \<and> \<not> isPromotion m \<and> \<not> isCastle m"
  "getKind m = 2 \<Longrightarrow> \<not> isCapture m \<and> \<not> isPromotion m \<and> isCastle m"
  "getKind m = 3 \<Longrightarrow> \<not> isCapture m \<and> \<not> isPromotion m \<and> isCastle m"
  "getKind m = 4 \<Longrightarrow> isCapture m \<and> \<not> isPromotion m \<and> \<not> isCastle m"
  "getKind m = 5 \<Longrightarrow> isCapture m \<and> \<not> isPromotion m \<and> \<not> isCastle m"
  "getKind m = 8 \<Longrightarrow> \<not> isCapture m \<and> isPromotion m \<and> \<not> isCastle m \<and> getPromotedPiece m = KNIGHT"
  "getKind m = 9 \<Longrightarrow> \<not> isCapture m \<and> isPromotion m \<and> \<not> isCastle m \<and> getPromotedPiece m = BISHOP"
  "getKind m = 10 \<Longrightarrow> \<not> isCapture m \<and> isPromotion m \<and> \<not> isCastle m \<and> getPromotedPiece m = ROOK"
  "getKind m = 11 \<Longrightarrow> \<not> isCapture m \<and> isPromotion m \<and> \<not> isCastle m \<and> getPromotedPiece m = QUEEN"
  "getKind m = 12 \<Longrightarrow> isCapture m \<and> isPromotion m \<and> \<not> isCastle m \<and> getPromotedPiece m = KNIGHT"
  "getKind m = 13 \<Longrightarrow> isCapture m \<and> isPromotion m \<and> \<not> isCastle m \<and> getPromotedPiece m = BISHOP"
  "getKind m = 14 \<Longrightarrow> isCapture m \<and> isPromotion m \<and> \<not> isCastle m \<and> getPromotedPiece m = ROOK"
  "getKind m = 15 \<Longrightarrow> isCapture m \<and> isPromotion m \<and> \<not> isCastle m \<and> getPromotedPiece m = QUEEN"
  by (simp_all add: isCapture_def isPromotion_def isCastle_def getPromotedPiece_def)

lemma getPromotedPiece_less: "getPromotedPiece m < 6"
proof -
  have "getKind m AND 3 = take_bit 2 (getKind m)" by (simp add: take_bit_eq_mask mask_eq_exp_minus_1)
  moreover have "take_bit 2 (getKind m) < 2 ^ 2" by (rule take_bit_nat_less_exp)
  ultimately show ?thesis by (simp add: getPromotedPiece_def)
qed

lemma other_color_neq [simp]: "getOtherPieceColor c \<noteq> c" "c \<noteq> getOtherPieceColor c"
  by (cases c; simp)+

lemma other_other [simp]: "getOtherPieceColor (getOtherPieceColor c) = c"
  by (cases c) simp_all

lemma kingHome_less [simp]: "kingHome c < 64"
  by (simp add: kingHome_def)

lemma castle_squares:
  assumes "k = KING_CASTLE \<or> k = QUEEN_CASTLE"
  shows "rookFrom c k < 64" "rookTo c k < 64" "rookFrom c k \<noteq> rookTo c k"
    "rookFrom c k \<noteq> kingHome c" "rookTo c k \<noteq> kingHome c"
    "rookFrom c k \<noteq> (if k = KING_CASTLE then kingHome c + 2 else kingHome c - 2)"
    "rookTo c k \<noteq> (if k = KING_CASTLE then kingHome c + 2 else kingHome c - 2)"
  using assms by (cases c; auto simp add: rookFrom_simps kingHome_def)+

lemma updatePieces_board:
  assumes ok: "boards_ok p" and mo: "move_ok p m"
  shows "boards_ok (updatePieces rv p m) \<and> (\<forall>i<64. board (updatePieces rv p m) i = boardAfter p m i)"
proof -
  let ?c = "turn p" and ?o = "getOtherPieceColor (turn p)"
  let ?f = "getFrom m" and ?t = "getTo m" and ?q = "getCaptureSquare m" and ?k = "getKind m"
  let ?P = "getPiece m" and ?C = "getCapturedPiece m"
  have frm: "board p ?f = Some (?P, ?c)" and ne: "?f \<noteq> ?t" using mo by (simp_all add: move_ok_def)
  \<comment> \<open>the capture\<close>
  define p1 where "p1 = (if isCapture m then capturePiece rv p ?C ?o ?q else p)"
  define b1 where "b1 = (if isCapture m then (board p)(nat ?q := None) else board p)"
  have cap: "isCapture m \<Longrightarrow> 0 \<le> ?q \<and> ?q < 64 \<and> board p (nat ?q) = Some (?C, ?o)"
    using mo by (auto simp add: move_ok_def getCaptureSquare_def)
  have s1: "boards_ok p1 \<and> (\<forall>i<64. board p1 i = b1 i)"
    using ok cap capturePiece_board [of p ?q ?C ?o rv] by (simp add: p1_def b1_def)
  have t1 [simp]: "turn p1 = ?c" by (simp add: p1_def)
  have b1f: "b1 ?f = Some (?P, ?c)"
    using frm cap by (auto simp add: b1_def)
  have b1t: "b1 ?t = None"
    using mo cap by (auto simp add: b1_def move_ok_def getCaptureSquare_def split: if_splits)
  \<comment> \<open>the rook of a castle\<close>
  define p2 where "p2 = (if isCastle m then castleRook rv p1 ?c (?k = KING_CASTLE) else p1)"
  define b2 where "b2 = (if isCastle m then b1(rookFrom ?c ?k := None, rookTo ?c ?k := Some (ROOK, ?c)) else b1)"
  have cas: "isCastle m \<Longrightarrow> \<not> isCapture m \<and> (?k = KING_CASTLE \<or> ?k = QUEEN_CASTLE)
      \<and> board p (rookFrom ?c ?k) = Some (ROOK, ?c) \<and> board p (rookTo ?c ?k) = None
      \<and> ?f = kingHome ?c \<and> ?t = (if ?k = KING_CASTLE then kingHome ?c + 2 else kingHome ?c - 2)"
    using mo by (auto simp add: move_ok_def isCastle_def isCapture_def)
  have s2: "boards_ok p2 \<and> (\<forall>i<64. board p2 i = b2 i)"
  proof (cases "isCastle m")
    case False with s1 show ?thesis by (simp add: p2_def b2_def)
  next
    case True
    note c = cas [OF True]
    note sq = castle_squares [of ?k ?c]
    from c have eq: "p1 = p" "b1 = board p" by (simp_all add: p1_def b1_def)
    have "castleRook rv p ?c (?k = KING_CASTLE) = movePiece rv p ROOK ?c (rookFrom ?c ?k) (rookTo ?c ?k)"
      using c by (auto simp add: castleRook_eq)
    then show ?thesis
      using True c sq movePiece_board [of p "rookFrom ?c ?k" "rookTo ?c ?k" ROOK ?c rv] ok
      by (simp add: p2_def b2_def eq)
  qed
  have t2 [simp]: "turn p2 = ?c" by (simp add: p2_def)
  have b2f: "b2 ?f = Some (?P, ?c)" using b1f cas castle_squares [of ?k ?c] by (auto simp add: b2_def)
  have b2t: "b2 ?t = None" using b1t cas castle_squares [of ?k ?c] by (auto simp add: b2_def)
  \<comment> \<open>the moving piece\<close>
  define p3 where "p3 = movePiece rv p2 ?P ?c ?f ?t"
  define b3 where "b3 = b2(?f := None, ?t := Some (?P, ?c))"
  have s3: "boards_ok p3 \<and> (\<forall>i<64. board p3 i = b3 i)"
    using s2 b2f b2t ne movePiece_board [of p2 ?f ?t ?P ?c rv] by (simp add: p3_def b3_def)
  have t3 [simp]: "turn p3 = ?c" by (simp add: p3_def)
  \<comment> \<open>the promotion\<close>
  have u: "updatePieces rv p m
           = (if isPromotion m then promotePiece rv p3 PAWN (getPromotedPiece m) ?c ?t else p3)"
    by (simp add: updatePieces_def Let_def getTurnColor_def p1_def p2_def p3_def)
  have a: "boardAfter p m = b2(?f := None, ?t := Some (if isPromotion m then getPromotedPiece m else ?P, ?c))"
    by (simp add: boardAfter_def Let_def b1_def b2_def)
  show ?thesis
  proof (cases "isPromotion m")
    case False
    with s3 show ?thesis by (simp add: u a b3_def)
  next
    case True
    then have "?P = PAWN" using mo by (simp add: move_ok_def)
    then have "board p3 ?t = Some (PAWN, ?c)" using s3 by (simp add: b3_def)
    then show ?thesis
      using True s3 promotePiece_board [of p3 ?t PAWN ?c "getPromotedPiece m" rv] getPromotedPiece_less [of m]
      by (simp add: u a b3_def)
  qed
qed

lemma revertPieces_board:
  assumes ok: "boards_ok p" and mo: "move_ok p m"
    and ok': "boards_ok p'" and b': "\<And>i. i < 64 \<Longrightarrow> board p' i = boardAfter p m i"
    and t': "turn p' = turn p"
  shows "boards_ok (revertPieces rv p' m) \<and> (\<forall>i<64. board (revertPieces rv p' m) i = board p i)"
proof -
  let ?c = "turn p" and ?o = "getOtherPieceColor (turn p)"
  let ?f = "getFrom m" and ?t = "getTo m" and ?q = "getCaptureSquare m" and ?k = "getKind m"
  let ?P = "getPiece m" and ?C = "getCapturedPiece m"
  have frm: "board p ?f = Some (?P, ?c)" and ne: "?f \<noteq> ?t" using mo by (simp_all add: move_ok_def)
  define b1 where "b1 = (if isCapture m then (board p)(nat ?q := None) else board p)"
  define b2 where "b2 = (if isCastle m then b1(rookFrom ?c ?k := None, rookTo ?c ?k := Some (ROOK, ?c)) else b1)"
  have cap: "isCapture m \<Longrightarrow> 0 \<le> ?q \<and> ?q < 64 \<and> board p (nat ?q) = Some (?C, ?o)"
    using mo by (auto simp add: move_ok_def getCaptureSquare_def)
  have cas: "isCastle m \<Longrightarrow> \<not> isCapture m \<and> (?k = KING_CASTLE \<or> ?k = QUEEN_CASTLE)
      \<and> board p (rookFrom ?c ?k) = Some (ROOK, ?c) \<and> board p (rookTo ?c ?k) = None
      \<and> ?f = kingHome ?c \<and> ?t = (if ?k = KING_CASTLE then kingHome ?c + 2 else kingHome ?c - 2)"
    using mo by (auto simp add: move_ok_def isCastle_def isCapture_def)
  have b1f: "b1 ?f = Some (?P, ?c)" using frm cap by (auto simp add: b1_def)
  have b1t: "b1 ?t = None"
    using mo cap by (auto simp add: b1_def move_ok_def getCaptureSquare_def split: if_splits)
  have b2f: "b2 ?f = Some (?P, ?c)" using b1f cas castle_squares [of ?k ?c] by (auto simp add: b2_def)
  have b2t: "b2 ?t = None" using b1t cas castle_squares [of ?k ?c] by (auto simp add: b2_def)
  have a: "boardAfter p m = b2(?f := None, ?t := Some (if isPromotion m then getPromotedPiece m else ?P, ?c))"
    by (simp add: boardAfter_def Let_def b1_def b2_def)
  \<comment> \<open>the promotion is taken back\<close>
  define r1 where "r1 = (if isPromotion m then promotePiece rv p' (getPromotedPiece m) PAWN ?c ?t else p')"
  have s1: "boards_ok r1 \<and> (\<forall>i<64. board r1 i = (b2(?f := None, ?t := Some (?P, ?c))) i)"
  proof (cases "isPromotion m")
    case False with ok' b' show ?thesis by (simp add: r1_def a)
  next
    case True
    then have P: "?P = PAWN" using mo by (simp add: move_ok_def)
    have "board p' ?t = Some (getPromotedPiece m, ?c)" using b' [of ?t] True by (simp add: a)
    then show ?thesis
      using True ok' b' P promotePiece_board [of p' ?t "getPromotedPiece m" ?c PAWN rv]
      by (simp add: r1_def a)
  qed
  have t1 [simp]: "turn r1 = ?c" by (simp add: r1_def t')
  \<comment> \<open>the piece moves back\<close>
  define r2 where "r2 = movePiece rv r1 ?P ?c ?t ?f"
  have s2: "boards_ok r2 \<and> (\<forall>i<64. board r2 i = b2 i)"
  proof -
    have "board r1 ?t = Some (?P, ?c)" "board r1 ?f = None" using s1 ne by simp_all
    then have "boards_ok r2 \<and> (\<forall>i<64. board r2 i = ((board r1)(?t := None, ?f := Some (?P, ?c))) i)"
      using s1 ne movePiece_board [of r1 ?t ?f ?P ?c rv] by (simp add: r2_def)
    then show ?thesis using s1 b2f b2t by auto
  qed
  have t2 [simp]: "turn r2 = ?c" by (simp add: r2_def)
  \<comment> \<open>the rook of a castle moves back\<close>
  define r3 where "r3 = (if isCastle m then unCastleRook rv r2 ?c (?k = KING_CASTLE) else r2)"
  have s3: "boards_ok r3 \<and> (\<forall>i<64. board r3 i = b1 i)"
  proof (cases "isCastle m")
    case False with s2 show ?thesis by (simp add: r3_def b2_def)
  next
    case True
    note c = cas [OF True]
    note sq = castle_squares [of ?k ?c]
    have "unCastleRook rv r2 ?c (?k = KING_CASTLE) = movePiece rv r2 ROOK ?c (rookTo ?c ?k) (rookFrom ?c ?k)"
      using c by (auto simp add: unCastleRook_eq)
    then have e: "r3 = movePiece rv r2 ROOK ?c (rookTo ?c ?k) (rookFrom ?c ?k)"
      using True by (simp add: r3_def)
    have br: "board r2 (rookTo ?c ?k) = Some (ROOK, ?c)" "board r2 (rookFrom ?c ?k) = None"
      using s2 True c sq by (simp_all add: b2_def)
    have "boards_ok r3 \<and> (\<forall>i<64. board r3 i
        = ((board r2)(rookTo ?c ?k := None, rookFrom ?c ?k := Some (ROOK, ?c))) i)"
      unfolding e
    proof (rule movePiece_board)
      show "boards_ok r2" using s2 by simp
      show "rookTo ?c ?k < 64" "rookFrom ?c ?k < 64" "rookTo ?c ?k \<noteq> rookFrom ?c ?k"
        using sq c by simp_all
      show "board r2 (rookTo ?c ?k) = Some (ROOK, ?c)" "board r2 (rookFrom ?c ?k) = None" by (fact br)+
    qed
    moreover have "b1 = board p" using c by (simp add: b1_def)
    ultimately show ?thesis using s2 True c by (auto simp add: b2_def)
  qed
  have t3 [simp]: "turn r3 = ?c" by (simp add: r3_def)
  \<comment> \<open>the captured piece comes back\<close>
  have u: "revertPieces rv p' m = (if isCapture m then unCapturePiece rv r3 ?C ?o ?q else r3)"
    by (simp add: revertPieces_def Let_def getTurnColor_def r1_def r2_def r3_def t')
  show ?thesis
  proof (cases "isCapture m")
    case False with s3 show ?thesis by (simp add: u b1_def)
  next
    case True
    note c = cap [OF True]
    have n: "nat ?q < 64" using c by linarith
    have "board r3 (nat ?q) = None" using s3 n True by (simp add: b1_def)
    moreover have "?C < 6" using c by (auto dest: board_piece_less)
    ultimately have "boards_ok (unCapturePiece rv r3 ?C ?o ?q)
        \<and> (\<forall>i<64. board (unCapturePiece rv r3 ?C ?o ?q) i = ((board r3)(nat ?q := Some (?C, ?o))) i)"
      using s3 c unCapturePiece_board [of r3 ?q ?C rv ?o] by simp
    then show ?thesis using s3 True c by (auto simp add: u b1_def)
  qed
qed

text \<open>Invariant-level round trip: the piece changes of a fitting move are undone exactly.\<close>

lemma revert_update:
  assumes ok: "boards_ok p" and mo: "move_ok p m"
  shows "revertPieces rv (updatePieces rv p m) m = p"
proof -
  let ?p' = "updatePieces rv p m"
  note u = updatePieces_board [OF ok mo, of rv]
  have r: "boards_ok (revertPieces rv ?p' m) \<and> (\<forall>i<64. board (revertPieces rv ?p' m) i = board p i)"
    using u by (intro revertPieces_board [OF ok mo]) simp_all
  have "hv (hashKey (revertPieces rv ?p' m)) = hv (hashKey p)"
    by (simp add: hv_revertPieces hv_updatePieces add.assoc)
  then have h: "hashKey (revertPieces rv ?p' m) = hashKey p" by (simp add: hv_inject)
  show ?thesis
  proof (rule position_eqI)
    have "same_frame p (revertPieces rv ?p' m)" by simp
    then show "same_frame (revertPieces rv ?p' m) p" by (simp add: same_frame_def)
    show "bitboards (revertPieces rv ?p' m) = bitboards p" using r ok by (intro boards_eqI(1)) simp_all
    show "pieces (revertPieces rv ?p' m) = pieces p" using r ok by (intro boards_eqI(2)) simp_all
    show "hashKey (revertPieces rv ?p' m) = hashKey p" by (rule h)
  qed
qed

section \<open>Well-formed positions\<close>

definition kingSquare :: "position \<Rightarrow> color \<Rightarrow> nat \<Rightarrow> bool" where
  "kingSquare p c k \<longleftrightarrow> k < 64 \<and> (\<forall>i<64. board p i = Some (KING, c) \<longleftrightarrow> i = k)"

definition castling_ok :: "position \<Rightarrow> bool" where
  "castling_ok p \<longleftrightarrow>
     0 \<le> castlingRights p \<and> castlingRights p < 16
     \<and> (\<forall>c kingSide. hasCastlingRight p c kingSide \<longrightarrow>
           board p (kingHome c) = Some (KING, c)
           \<and> board p (getCastlingRookSquare c kingSide) = Some (ROOK, c))"

definition enPassant_ok :: "position \<Rightarrow> bool" where
  "enPassant_ok p \<longleftrightarrow>
     enPassantSquare p = - 1
     \<or> (case turn p of
           WHITE \<Rightarrow> 32 \<le> enPassantSquare p \<and> enPassantSquare p < 40
                     \<and> board p (nat (enPassantSquare p)) = Some (PAWN, BLACK)
                     \<and> board p (nat (enPassantSquare p) + 8) = None
         | BLACK \<Rightarrow> 24 \<le> enPassantSquare p \<and> enPassantSquare p < 32
                     \<and> board p (nat (enPassantSquare p)) = Some (PAWN, WHITE)
                     \<and> board p (nat (enPassantSquare p) - 8) = None)"

text \<open>
  A well-formed position: one board, one king of each colour, castling rights only
  with king and rook at home, an en-passant square only behind a pawn that has just
  advanced two squares, and the side that has just moved not in check.
\<close>

definition wf_position :: "position \<Rightarrow> bool" where
  "wf_position p \<longleftrightarrow>
     boards_ok p
     \<and> (\<forall>c. \<exists>k. kingSquare p c k)
     \<and> castling_ok p
     \<and> enPassant_ok p
     \<and> (\<forall>k. kingSquare p (getOtherPieceColor (turn p)) k \<longrightarrow> \<not> attackedBy p (turn p) k)"

lemma getLowestBitPosition_makeIndex: "k < 64 \<Longrightarrow> getLowestBitPosition (makeIndex k) = k"
proof -
  assume k: "k < 64"
  then have ne: "\<not> isEmpty (makeIndex k)" by (auto simp add: isEmpty_iff)
  from lowest_bit(1,2) [OF ne] k show ?thesis by simp
qed

lemma kingSquare_board: "kingSquare p c k \<Longrightarrow> board p k = Some (KING, c)"
  by (simp add: kingSquare_def)

lemma kingSquare_unique: "kingSquare p c k \<Longrightarrow> kingSquare p c k' \<Longrightarrow> k = k'"
  by (auto simp add: kingSquare_def)

lemma kingSquare_bitboard:
  assumes "boards_ok p" "kingSquare p c k"
  shows "getPieceColorBitboard p KING c = makeIndex k"
proof (rule bb_eqI)
  fix i :: nat assume "i < 64"
  then show "isSet (getPieceColorBitboard p KING c) i = isSet (makeIndex k) i"
    using assms by (auto simp add: getPieceColorBitboard_iff kingSquare_def)
qed

lemma getKingPosition_eq: "boards_ok p \<Longrightarrow> kingSquare p c k \<Longrightarrow> getKingPosition p c = k"
  using kingSquare_bitboard [of p c k] getLowestBitPosition_makeIndex [of k]
  by (simp add: getKingPosition_def kingSquare_def)

lemma pieces_at:
  "boards_ok p \<Longrightarrow> i < 64 \<Longrightarrow> getPieceAtOrNull p (int i) = map_option fst (board p i)"
  by (simp add: getPieceAtOrNull_def boards_okD(4))

section \<open>Generated moves fit the board\<close>

lemma Move_decode:
  assumes "0 \<le> f" "f < 64" "t < 64" "k < 16" "pc < 8"
  shows "getFrom (Move f (int t) k pc c) = nat f" "getTo (Move f (int t) k pc c) = t"
    "getKind (Move f (int t) k pc c) = k" "getPiece (Move f (int t) k pc c) = pc"
  using assms by (simp_all add: nat_mod_distrib)

lemma captured_decode:
  "boards_ok p \<Longrightarrow> t < 64 \<Longrightarrow>
     getCapturedPiece (Move f t' k pc (getPieceAtOrNull p (int t)))
       = (case board p t of None \<Rightarrow> 0 | Some (piece, c) \<Rightarrow> piece)"
  by (auto simp add: pieces_at split: option.splits dest: board_piece_less)

lemma addNormalMoves_ok:
  assumes ok: "boards_ok p" and f: "from < 64" and at: "board p from = Some (piece, turn p)"
    and pc: "piece \<noteq> PAWN"
    and tm: "\<And>i. i < 64 \<Longrightarrow> isSet toMask i \<Longrightarrow> \<not> isSet (getColorBitboard p (turn p)) i"
    and m: "m \<in> set (addNormalMoves p (getColorBitboard p (getOtherPieceColor (turn p))) from toMask piece)"
  shows "move_ok p m" and "getFrom m = from" and "getPiece m = piece" and "isSet toMask (getTo m)"
    and "\<not> isCastle m" and "getKind m \<noteq> DOUBLE_PAWN_PUSH"
proof -
  let ?o = "getOtherPieceColor (turn p)"
  from m obtain to where to: "to < 64" "isSet toMask to"
    and md: "m = Move (int from) (int to) (if isSet (getColorBitboard p ?o) to then CAPTURE else POSITIONAL)
                  piece (getPieceAtOrNull p (int to))"
    by (auto simp add: addNormalMoves_def)
  have pl: "piece < 6" using at by (rule board_piece_less)
  have dec: "getFrom m = from" "getTo m = to" "getPiece m = piece"
    "getKind m = (if isSet (getColorBitboard p ?o) to then CAPTURE else POSITIONAL)"
    using f to pl by (simp_all add: md nat_mod_distrib)
  have cp: "getCapturedPiece m = (case board p to of None \<Rightarrow> 0 | Some (piece, c) \<Rightarrow> piece)"
    unfolding md by (rule captured_decode [OF ok to(1)])
  have nt: "\<not> (\<exists>pc. board p to = Some (pc, turn p))"
    using tm [OF to] ok to(1) by (simp add: getColorBitboard_iff)
  have ne: "from \<noteq> to" using nt at by auto
  show "getFrom m = from" "getPiece m = piece" by (fact dec)+
  show "isSet toMask (getTo m)" using to dec by simp
  show "\<not> isCastle m" "getKind m \<noteq> DOUBLE_PAWN_PUSH" using dec by (simp_all add: isCastle_def)
  show "move_ok p m"
  proof (cases "isSet (getColorBitboard p ?o) to")
    case True
    then obtain C where C: "board p to = Some (C, ?o)" using ok to(1) by (auto simp add: getColorBitboard_iff)
    then show ?thesis using True dec cp at ne pc
      by (simp add: move_ok_def isCapture_def isPromotion_def isCastle_def)
  next
    case False
    then have "board p to = None"
      using nt ok to(1) by (cases "board p to") (auto simp add: getColorBitboard_iff, metis color.exhaust getOtherPieceColor.simps)
    then show ?thesis using False dec cp at ne pc
      by (simp add: move_ok_def isCapture_def isPromotion_def isCastle_def)
  qed
qed

lemma targetMask_not_own:
  "i < 64 \<Longrightarrow> isSet (and_bb a (targetMask p onlyCaptures)) i \<Longrightarrow> \<not> isSet (getColorBitboard p (turn p)) i"
  by (simp add: targetMask_def split: if_splits)

lemma pieceMoves_ok:
  assumes ok: "boards_ok p" and pc: "0 < piece" "piece < 6"
    and m: "m \<in> set (pieceMoves p onlyCaptures piece)"
  shows "move_ok p m" and "getPiece m = piece" and "\<not> isCastle m" and "getKind m \<noteq> DOUBLE_PAWN_PUSH"
    and "board p (getFrom m) = Some (piece, turn p)"
    and "isSet (pieceAttackMask p piece (getFrom m)) (getTo m)"
proof -
  from m obtain f where f: "f < 64" "isSet (getPieceColorBitboard p piece (turn p)) f"
    and mm: "m \<in> set (addNormalMoves p (getColorBitboard p (getOtherPieceColor (turn p))) f
                (and_bb (pieceAttackMask p piece f) (targetMask p onlyCaptures)) piece)"
    by (auto simp add: pieceMoves_def)
  have at: "board p f = Some (piece, turn p)" using f ok pc by (simp add: getPieceColorBitboard_iff)
  note r = addNormalMoves_ok [OF ok f(1) at _ targetMask_not_own mm]
  show "move_ok p m" "getPiece m = piece" "\<not> isCastle m" "getKind m \<noteq> DOUBLE_PAWN_PUSH"
    using r pc by simp_all
  show "board p (getFrom m) = Some (piece, turn p)" using r(2) pc at by simp
  have "isSet (and_bb (pieceAttackMask p piece f) (targetMask p onlyCaptures)) (getTo m)"
    using r(4) pc by simp
  then show "isSet (pieceAttackMask p piece (getFrom m)) (getTo m)" using r(2) pc by simp
qed

lemma kingMoves_ok:
  assumes ok: "boards_ok p" and k: "kingSquare p (turn p) k"
    and m: "m \<in> set (kingMoves p onlyCaptures)"
  shows "move_ok p m" and "getPiece m = KING" and "\<not> isCastle m" and "getKind m \<noteq> DOUBLE_PAWN_PUSH"
    and "getFrom m = k" and "isSet (KING_MOVEMENTS ! k) (getTo m)"
proof -
  have kp: "getKingPosition p (turn p) = k" using ok k by (rule getKingPosition_eq)
  have k64: "k < 64" and at: "board p k = Some (KING, turn p)" using k by (simp_all add: kingSquare_def)
  from m have mm: "m \<in> set (addNormalMoves p (getColorBitboard p (getOtherPieceColor (turn p))) k
                (and_bb (pieceAttackMask p KING k) (targetMask p onlyCaptures)) KING)"
    by (simp add: kingMoves_def kp)
  note r = addNormalMoves_ok [OF ok k64 at _ targetMask_not_own mm]
  show "move_ok p m" "getPiece m = KING" "\<not> isCastle m" "getKind m \<noteq> DOUBLE_PAWN_PUSH" "getFrom m = k"
    using r by simp_all
  have "isSet (and_bb (pieceAttackMask p KING k) (targetMask p onlyCaptures)) (getTo m)" using r(4) by simp
  then show "isSet (KING_MOVEMENTS ! k) (getTo m)" by (simp add: pieceAttackMask_def)
qed

lemma addPawnMoves_ok:
  assumes ok: "boards_ok p"
    and kind: "kind \<in> {0, 1, 4, 8, 9, 10, 11, 12, 13, 14, 15}"
    and src: "\<And>i. i < 64 \<Longrightarrow> isSet toMask i \<Longrightarrow>
                0 \<le> int i - movement \<and> int i - movement < 64
                \<and> board p (nat (int i - movement)) = Some (PAWN, turn p)"
    and dst: "\<And>i. i < 64 \<Longrightarrow> isSet toMask i \<Longrightarrow>
                (if kind AND 4 \<noteq> 0 then \<exists>C. board p i = Some (C, getOtherPieceColor (turn p))
                 else board p i = None)"
    and m: "m \<in> set (addPawnMoves p toMask movement kind)"
  shows "move_ok p m" and "getPiece m = PAWN" and "getKind m = kind" and "isSet toMask (getTo m)"
    and "int (getFrom m) = int (getTo m) - movement"
proof -
  from m obtain t where t: "t < 64" "isSet toMask t"
    and md: "m = Move (int t - movement) (int t) kind PAWN (getPieceAtOrNull p (int t))"
    by (auto simp add: addPawnMoves_def)
  note s = src [OF t] and d = dst [OF t]
  have k16: "kind < 16" using kind by auto
  have dec: "getFrom m = nat (int t - movement)" "getTo m = t" "getPiece m = PAWN" "getKind m = kind"
    unfolding md using s t k16 by (simp_all add: Move_decode)
  have cp: "getCapturedPiece m = (case board p t of None \<Rightarrow> 0 | Some (piece, c) \<Rightarrow> piece)"
    unfolding md by (rule captured_decode [OF ok t(1)])
  show "getPiece m = PAWN" "getKind m = kind" by (fact dec)+
  show "isSet toMask (getTo m)" using t dec by simp
  show "int (getFrom m) = int (getTo m) - movement" using dec s by simp
  have ne: "nat (int t - movement) \<noteq> t" using s d by (auto split: if_splits)
  from kind consider "kind = 0" | "kind = 1" | "kind = 4" | "kind = 8" | "kind = 9" | "kind = 10"
    | "kind = 11" | "kind = 12" | "kind = 13" | "kind = 14" | "kind = 15" by auto
  then show "move_ok p m"
    using dec cp s d ne
    by cases (auto simp add: move_ok_def isCapture_def isPromotion_def isCastle_def)
qed

subsection \<open>Pawn moves\<close>

lemma rank1_iff: "i < 64 \<Longrightarrow> isSet (RANKS ! Suc 0) i \<longleftrightarrow> 8 \<le> i \<and> i < 16"
proof -
  assume i: "i < 64"
  have w: "(0xFF00 :: 32 word) = push_bit 8 (mask 8)" by (simp add: mask_eq_exp_minus_1 push_bit_eq_mult)
  show ?thesis using i by (auto simp add: RANKS_eq isSet_iff w bit_simps simp del: push_bit_Suc)
qed

lemma rank6_iff: "i < 64 \<Longrightarrow> isSet (RANKS ! 6) i \<longleftrightarrow> 48 \<le> i \<and> i < 56"
proof -
  assume i: "i < 64"
  have w: "(0xFF0000 :: 32 word) = push_bit 16 (mask 8)" by (simp add: mask_eq_exp_minus_1 push_bit_eq_mult)
  show ?thesis using i by (auto simp add: RANKS_eq isSet_iff w bit_simps simp del: push_bit_Suc)
qed

lemma no_Some_pair: "(\<forall>a b. x \<noteq> Some (a, b)) \<longleftrightarrow> x = None"
  by (cases x) auto

lemma fileDir_cases: "fileDir p = (case turn p of WHITE \<Rightarrow> 1 | BLACK \<Rightarrow> - 1)"
  by (cases "turn p") (simp_all add: fileDir_def)

lemma pawn_src:
  assumes ok: "boards_ok p" and i: "i < 64" and s: "isSet (shiftLeft x mv) i"
    and sub: "\<And>j. j < 64 \<Longrightarrow> isSet x j \<Longrightarrow> isSet (getPieceColorBitboard p PAWN (turn p)) j"
  shows "0 \<le> int i - mv \<and> int i - mv < 64 \<and> board p (nat (int i - mv)) = Some (PAWN, turn p)"
proof -
  from s i have a: "0 \<le> int i - mv" "int i - mv < 64" "isSet x (nat (int i - mv))"
    by (simp_all add: isSet_shiftLeft)
  then have n: "nat (int i - mv) < 64" by linarith
  from sub [OF n a(3)] ok n have "board p (nat (int i - mv)) = Some (PAWN, turn p)"
    by (simp add: getPieceColorBitboard_iff)
  with a show ?thesis by simp
qed

definition doublePush_ok :: "position \<Rightarrow> move \<Rightarrow> bool" where
  "doublePush_ok p m \<longleftrightarrow>
     (getKind m = DOUBLE_PAWN_PUSH \<longrightarrow>
        getPiece m = PAWN
        \<and> (case turn p of
              WHITE \<Rightarrow> 24 \<le> getTo m \<and> getTo m < 32 \<and> board p (getTo m - 8) = None
            | BLACK \<Rightarrow> 32 \<le> getTo m \<and> getTo m < 40 \<and> board p (getTo m + 8) = None))"

lemma addPawnPromotions_ok:
  assumes ok: "boards_ok p"
    and src: "\<And>i. i < 64 \<Longrightarrow> isSet toMask i \<Longrightarrow>
                0 \<le> int i - movement \<and> int i - movement < 64
                \<and> board p (nat (int i - movement)) = Some (PAWN, turn p)"
    and dst: "\<And>i. i < 64 \<Longrightarrow> isSet toMask i \<Longrightarrow>
                (if capture then \<exists>C. board p i = Some (C, getOtherPieceColor (turn p))
                 else board p i = None)"
    and m: "m \<in> set (addPawnPromotions p toMask movement capture)"
  shows "move_ok p m" and "getPiece m = PAWN" and "getKind m \<ge> 8" and "isSet toMask (getTo m)"
    and "isCapture m = capture"
proof -
  from m obtain kind where k: "kind \<in> (if capture then {12, 13, 14, 15} else {8, 9, 10, 11})"
    and mm: "m \<in> set (addPawnMoves p toMask movement kind)"
    by (auto simp add: addPawnPromotions_def split: if_splits)
  have k': "kind \<in> {0, 1, 4, 8, 9, 10, 11, 12, 13, 14, 15}" using k by (auto split: if_splits)
  have c: "(kind AND 4 \<noteq> 0) = capture" using k by (auto split: if_splits)
  have d: "\<And>i. i < 64 \<Longrightarrow> isSet toMask i \<Longrightarrow>
                (if kind AND 4 \<noteq> 0 then \<exists>C. board p i = Some (C, getOtherPieceColor (turn p))
                 else board p i = None)"
    using dst by (simp only: c)
  note r = addPawnMoves_ok [OF ok k' src d mm]
  show "move_ok p m" "getPiece m = PAWN" "isSet toMask (getTo m)" using r by simp_all
  show "getKind m \<ge> 8" using r(3) k by (auto split: if_splits)
  show "isCapture m = capture" using r(3) c by (simp add: isCapture_def)
qed

lemma pawnQuietMoves_ok:
  assumes ok: "boards_ok p" and m: "m \<in> set (pawnQuietMoves p)"
  shows "move_ok p m" and "doublePush_ok p m" and "\<not> isCapture m" and "\<not> isCastle m"
proof -
  let ?rd = "8 * fileDir p"
  let ?pawns = "getPieceColorBitboard p PAWN (turn p)"
  let ?occ = "getOccupiedBitboard p"
  let ?last = "RANKS ! (if turn p \<noteq> WHITE then 0 else 7)"
  let ?dbl = "and_not (and_not (shiftLeft (and_bb ?pawns (RANKS ! (if turn p \<noteq> WHITE then 6 else 1)))
                                (2 * ?rd)) ?occ) (shiftLeft ?occ ?rd)"
  let ?pos = "and_not (shiftLeft ?pawns ?rd) ?occ"
  from m consider
      (double) "m \<in> set (addPawnMoves p ?dbl (2 * ?rd) DOUBLE_PAWN_PUSH)"
    | (single) "m \<in> set (addPawnMoves p (and_not ?pos ?last) ?rd POSITIONAL)"
    | (promo) "m \<in> set (addPawnPromotions p (and_bb ?pos ?last) ?rd False)"
    by (auto simp add: pawnQuietMoves_def Let_def)
  then have "move_ok p m \<and> doublePush_ok p m \<and> \<not> isCapture m \<and> \<not> isCastle m"
  proof cases
    case double
    have src: "\<And>i. i < 64 \<Longrightarrow> isSet ?dbl i \<Longrightarrow>
        0 \<le> int i - 2 * ?rd \<and> int i - 2 * ?rd < 64 \<and> board p (nat (int i - 2 * ?rd)) = Some (PAWN, turn p)"
      by (rule pawn_src [OF ok, where x = "and_bb ?pawns (RANKS ! (if turn p \<noteq> WHITE then 6 else 1))"]) simp_all
    have dst: "\<And>i. i < 64 \<Longrightarrow> isSet ?dbl i \<Longrightarrow>
        (if DOUBLE_PAWN_PUSH AND 4 \<noteq> 0 then \<exists>C. board p i = Some (C, getOtherPieceColor (turn p)) else board p i = None)"
      using ok by (simp add: occupied_iff no_Some_pair)
    have r1: "move_ok p m" "getPiece m = PAWN" "getKind m = 1" "isSet ?dbl (getTo m)"
      "int (getFrom m) = int (getTo m) - 2 * ?rd"
      using addPawnMoves_ok [where toMask = ?dbl and movement = "2 * ?rd" and kind = DOUBLE_PAWN_PUSH
          and m = m, OF ok _ src dst double] by simp_all
    have t: "getTo m < 64" by simp
    have mid: "\<not> isSet (shiftLeft ?occ ?rd) (getTo m)" using r1(4) t by simp
    have fr: "nat (int (getTo m) - 2 * ?rd) = getFrom m" using r1(5) by simp
    have "isSet (and_bb ?pawns (RANKS ! (if turn p \<noteq> WHITE then 6 else 1))) (nat (int (getTo m) - 2 * ?rd))"
      using r1(4) t by (simp add: isSet_shiftLeft)
    then have rk: "isSet (RANKS ! (if turn p \<noteq> WHITE then 6 else 1)) (getFrom m)"
      unfolding fr by simp
    have "doublePush_ok p m"
    proof (cases "turn p")
      case WHITE
      have f: "getFrom m < 64" by simp
      have "8 \<le> getFrom m \<and> getFrom m < 16"
        using rk WHITE f by (simp add: rank1_iff)
      then have rng: "24 \<le> getTo m \<and> getTo m < 32" using r1(5) WHITE by (simp add: fileDir_cases)
      then have "isSet ?occ (getTo m - 8) \<longleftrightarrow> isSet (shiftLeft ?occ ?rd) (getTo m)"
        using WHITE t by (simp add: isSet_shiftLeft fileDir_cases nat_diff_distrib')
      moreover have "getTo m - 8 < 64" using getTo_less [of m] by arith
      ultimately have "board p (getTo m - 8) = None" using mid ok by (simp add: occupied_iff no_Some_pair)
      then show ?thesis using WHITE r1 rng by (simp add: doublePush_ok_def)
    next
      case BLACK
      have f: "getFrom m < 64" by simp
      have "48 \<le> getFrom m \<and> getFrom m < 56"
        using rk BLACK f by (simp add: rank6_iff)
      then have rng: "32 \<le> getTo m \<and> getTo m < 40" using r1(5) BLACK by (simp add: fileDir_cases)
      then have "isSet ?occ (getTo m + 8) \<longleftrightarrow> isSet (shiftLeft ?occ ?rd) (getTo m)"
        using BLACK t by (simp add: isSet_shiftLeft fileDir_cases nat_add_distrib)
      moreover have "getTo m + 8 < 64" using rng by simp
      ultimately have "board p (getTo m + 8) = None" using mid ok by (simp add: occupied_iff no_Some_pair)
      then show ?thesis using BLACK r1 rng by (simp add: doublePush_ok_def)
    qed
    then show ?thesis using r1 by (simp add: isCapture_def isCastle_def)
  next
    case single
    have src: "\<And>i. i < 64 \<Longrightarrow> isSet (and_not ?pos ?last) i \<Longrightarrow>
        0 \<le> int i - ?rd \<and> int i - ?rd < 64 \<and> board p (nat (int i - ?rd)) = Some (PAWN, turn p)"
      by (rule pawn_src [OF ok, where x = "?pawns"]) simp_all
    have dst: "\<And>i. i < 64 \<Longrightarrow> isSet (and_not ?pos ?last) i \<Longrightarrow>
        (if POSITIONAL AND 4 \<noteq> 0 then \<exists>C. board p i = Some (C, getOtherPieceColor (turn p)) else board p i = None)"
      using ok by (simp add: occupied_iff no_Some_pair)
    have "move_ok p m" "getKind m = 0"
      using addPawnMoves_ok [where toMask = "and_not ?pos ?last" and movement = "?rd" and kind = POSITIONAL
          and m = m, OF ok _ src dst single] by simp_all
    then show ?thesis by (simp add: isCapture_def isCastle_def doublePush_ok_def)
  next
    case promo
    have src: "\<And>i. i < 64 \<Longrightarrow> isSet (and_bb ?pos ?last) i \<Longrightarrow>
        0 \<le> int i - ?rd \<and> int i - ?rd < 64 \<and> board p (nat (int i - ?rd)) = Some (PAWN, turn p)"
      by (rule pawn_src [OF ok, where x = "?pawns"]) simp_all
    have dst: "\<And>i. i < 64 \<Longrightarrow> isSet (and_bb ?pos ?last) i \<Longrightarrow>
        (if False then \<exists>C. board p i = Some (C, getOtherPieceColor (turn p)) else board p i = None)"
      using ok by (simp add: occupied_iff no_Some_pair)
    note r = addPawnPromotions_ok [OF ok src dst promo]
    then show ?thesis by (simp add: isCastle_def doublePush_ok_def)
  qed
  then show "move_ok p m" "doublePush_ok p m" "\<not> isCapture m" "\<not> isCastle m" by simp_all
qed

lemma pawnCaptureMoves_ok:
  assumes ok: "boards_ok p" and m: "m \<in> set (pawnCaptureMoves p left)"
  shows "move_ok p m" and "isCapture m" and "getKind m \<noteq> EN_PASSANT_CAPTURE" and "\<not> isCastle m"
    and "getKind m \<noteq> DOUBLE_PAWN_PUSH"
    and "isSet (makePawnAttackMask (turn p) (getPieceColorBitboard p PAWN (turn p))) (getTo m)"
proof -
  let ?pawns = "getPieceColorBitboard p PAWN (turn p)"
  let ?opp = "getColorBitboard p (getOtherPieceColor (turn p))"
  let ?last = "RANKS ! (if turn p \<noteq> WHITE then 0 else 7)"
  let ?edge = "FILES ! (if (turn p \<noteq> WHITE) = left then 7 else 0)"
  let ?mv = "8 * fileDir p + (if left then - fileDir p else fileDir p)"
  let ?cap = "and_bb (shiftLeft (and_not ?pawns ?edge) ?mv) ?opp"
  have att: "\<And>i. i < 64 \<Longrightarrow> isSet (shiftLeft (and_not ?pawns ?edge) ?mv) i
                \<Longrightarrow> isSet (makePawnAttackMask (turn p) ?pawns) i"
    by (cases "turn p"; cases left) (simp_all add: makePawnAttackMask_def fileDir_cases)
  from m consider
      (plain) "m \<in> set (addPawnMoves p (and_not ?cap ?last) ?mv CAPTURE)"
    | (promo) "m \<in> set (addPawnPromotions p (and_bb ?cap ?last) ?mv True)"
    by (auto simp add: pawnCaptureMoves_def Let_def)
  then have "move_ok p m \<and> isCapture m \<and> getKind m \<noteq> EN_PASSANT_CAPTURE \<and> \<not> isCastle m
      \<and> getKind m \<noteq> DOUBLE_PAWN_PUSH \<and> isSet (makePawnAttackMask (turn p) ?pawns) (getTo m)"
  proof cases
    case plain
    have src: "\<And>i. i < 64 \<Longrightarrow> isSet (and_not ?cap ?last) i \<Longrightarrow>
        0 \<le> int i - ?mv \<and> int i - ?mv < 64 \<and> board p (nat (int i - ?mv)) = Some (PAWN, turn p)"
      by (rule pawn_src [OF ok, where x = "and_not ?pawns ?edge"]) simp_all
    have dst: "\<And>i. i < 64 \<Longrightarrow> isSet (and_not ?cap ?last) i \<Longrightarrow>
        (if CAPTURE AND 4 \<noteq> 0 then \<exists>C. board p i = Some (C, getOtherPieceColor (turn p)) else board p i = None)"
      using ok by (simp add: getColorBitboard_iff)
    have r: "move_ok p m" "getKind m = 4" "isSet (and_not ?cap ?last) (getTo m)"
      using addPawnMoves_ok [where toMask = "and_not ?cap ?last" and movement = "?mv" and kind = CAPTURE
          and m = m, OF ok _ src dst plain] by simp_all
    have "isSet (shiftLeft (and_not ?pawns ?edge) ?mv) (getTo m)" using r(3) by simp
    then have "isSet (makePawnAttackMask (turn p) ?pawns) (getTo m)" by (rule att [rotated]) simp
    then show ?thesis using r by (simp add: isCapture_def isCastle_def)
  next
    case promo
    have src: "\<And>i. i < 64 \<Longrightarrow> isSet (and_bb ?cap ?last) i \<Longrightarrow>
        0 \<le> int i - ?mv \<and> int i - ?mv < 64 \<and> board p (nat (int i - ?mv)) = Some (PAWN, turn p)"
      by (rule pawn_src [OF ok, where x = "and_not ?pawns ?edge"]) simp_all
    have dst: "\<And>i. i < 64 \<Longrightarrow> isSet (and_bb ?cap ?last) i \<Longrightarrow>
        (if True then \<exists>C. board p i = Some (C, getOtherPieceColor (turn p)) else board p i = None)"
      using ok by (simp add: getColorBitboard_iff)
    note r = addPawnPromotions_ok [OF ok src dst promo]
    have "isSet (shiftLeft (and_not ?pawns ?edge) ?mv) (getTo m)" using r(4) by simp
    then have "isSet (makePawnAttackMask (turn p) ?pawns) (getTo m)" by (rule att [rotated]) simp
    then show ?thesis using r by (auto simp add: isCastle_def)
  qed
  then show "move_ok p m" "isCapture m" "getKind m \<noteq> EN_PASSANT_CAPTURE" "\<not> isCastle m"
    "getKind m \<noteq> DOUBLE_PAWN_PUSH"
    "isSet (makePawnAttackMask (turn p) (getPieceColorBitboard p PAWN (turn p))) (getTo m)"
    by simp_all
qed

lemma enPassantMoves_ok:
  assumes ok: "boards_ok p" and ep: "enPassant_ok p" and can: "canEnPassant p"
    and m: "m \<in> set (enPassantMoves p left)"
  shows "move_ok p m" and "getKind m = EN_PASSANT_CAPTURE"
proof -
  let ?pawns = "getPieceColorBitboard p PAWN (turn p)"
  let ?edge = "FILES ! (if (turn p \<noteq> WHITE) = left then 7 else 0)"
  let ?mv = "8 * fileDir p + (if left then - fileDir p else fileDir p)"
  let ?beside = "enPassantSquare p + (if left then fileDir p else - fileDir p)"
  let ?mask = "shiftLeft (and_not (and_bb (makeIndex (u32 ?beside)) ?pawns) ?edge) ?mv"
  from m obtain t where t: "t < 64" "isSet ?mask t"
    and md: "m = Move (int t - ?mv) (int t) EN_PASSANT_CAPTURE PAWN (getPieceAtOrNull p (int t))"
    by (auto simp add: enPassantMoves_def addPawnMoves_def Let_def)
  from can ep have e: "enPassantSquare p \<noteq> - 1" by (simp add: canEnPassant_def getEnPassantSquare_def)
  with ep have rng: "24 \<le> enPassantSquare p" "enPassantSquare p < 40"
    by (auto simp add: enPassant_ok_def split: color.splits)
  have b: "0 \<le> ?beside" "?beside < 64" using rng by (auto simp add: fileDir_cases split: color.splits)
  then have ub: "u32 ?beside = nat ?beside" by (rule u32_small)
  from t have a: "0 \<le> int t - ?mv" "int t - ?mv < 64"
    and s: "isSet (and_not (and_bb (makeIndex (u32 ?beside)) ?pawns) ?edge) (nat (int t - ?mv))"
    by (simp_all add: isSet_shiftLeft)
  have n: "nat (int t - ?mv) < 64" using a by linarith
  have nb: "nat ?beside < 64" using b by linarith
  from s n have pw: "isSet ?pawns (nat (int t - ?mv))" by simp
  from s n nb have f: "nat (int t - ?mv) = nat ?beside" by (simp add: ub)
  have at: "board p (nat (int t - ?mv)) = Some (PAWN, turn p)"
    using pw ok n by (simp add: getPieceColorBitboard_iff)
  have tt: "int t = enPassantSquare p + 8 * fileDir p" using f a b by (auto split: if_splits)
  have dec: "getFrom m = nat (int t - ?mv)" "getTo m = t" "getPiece m = PAWN" "getKind m = 5"
    unfolding md using a t by (simp_all add: Move_decode)
  have cp: "getCapturedPiece m = (case board p t of None \<Rightarrow> 0 | Some (piece, c) \<Rightarrow> piece)"
    unfolding md by (rule captured_decode [OF ok t(1)])
  show "getKind m = EN_PASSANT_CAPTURE" using dec by simp
  show "move_ok p m"
  proof (cases "turn p")
    case WHITE
    with ep e have x: "board p (nat (enPassantSquare p)) = Some (PAWN, BLACK)"
      "board p (nat (enPassantSquare p) + 8) = None" by (simp_all add: enPassant_ok_def)
    have t8: "t = nat (enPassantSquare p) + 8" using tt rng WHITE by (simp add: fileDir_cases)
    have fr: "getFrom m < getTo m" using dec f rng WHITE t8 by (auto simp add: fileDir_cases)
    show ?thesis using dec cp at x t8 fr WHITE rng
      by (simp add: move_ok_def isPromotion_def isCastle_def getCaptureSquare_def)
  next
    case BLACK
    with ep e have x: "board p (nat (enPassantSquare p)) = Some (PAWN, WHITE)"
      "board p (nat (enPassantSquare p) - 8) = None" by (simp_all add: enPassant_ok_def)
    have t8: "t = nat (enPassantSquare p) - 8" using tt rng BLACK by (simp add: fileDir_cases)
    have fr: "getTo m < getFrom m" using dec f rng BLACK t8 by (auto simp add: fileDir_cases)
    show ?thesis using dec cp at x t8 fr BLACK rng
      by (simp add: move_ok_def isPromotion_def isCastle_def getCaptureSquare_def)
  qed
qed

lemma castleMoves_ok:
  assumes ok: "boards_ok p" and co: "castling_ok p" and k: "kingSquare p (turn p) k"
    and kc: "canCastle p (turn p) True True = Some kingCastle"
    and qc: "canCastle p (turn p) False True = Some queenCastle"
    and m: "m \<in> set (castleMoves p kingCastle queenCastle)"
  shows "move_ok p m" and "isCastle m"
proof -
  have kp: "getKingPosition p (turn p) = k" using ok k by (rule getKingPosition_eq)
  from castleMoves_kind [OF m] kp consider
      (kingSide) "kingCastle" "m = Move (int k) (int k + 2) KING_CASTLE KING None"
    | (queenSide) "queenCastle" "m = Move (int k) (int k - 2) QUEEN_CASTLE KING None"
    by auto
  then have "move_ok p m \<and> isCastle m"
  proof cases
    case kingSide
    from kc kingSide(1) have r: "hasCastlingRight p (turn p) True"
      and bt: "\<forall>s\<in>set (castleBetween (turn p) True). \<not> isSet (getOccupiedBitboard p) s"
      by (simp_all add: canCastle_eq)
    from co r have h: "board p (kingHome (turn p)) = Some (KING, turn p)"
      and rk: "board p (getCastlingRookSquare (turn p) True) = Some (ROOK, turn p)"
      by (auto simp add: castling_ok_def)
    have kh: "k = kingHome (turn p)" using k h by (simp add: kingSquare_def)
    have e1: "board p (kingHome (turn p) + 1) = None" "board p (kingHome (turn p) + 2) = None"
      using bt ok by (cases "turn p"; simp add: castleBetween_def occupied_iff kingHome_def no_Some_pair)+
    show ?thesis unfolding kingSide(2) kh using h rk e1
      by (cases "turn p")
        (simp_all add: move_ok_def isCapture_def isPromotion_def isCastle_def kingHome_def
          rookFrom_def rookTo_def getCastlingRookSquare_def getCastlingIndex_def ROOK_INDICES_def)
  next
    case queenSide
    from qc queenSide(1) have r: "hasCastlingRight p (turn p) False"
      and bt: "\<forall>s\<in>set (castleBetween (turn p) False). \<not> isSet (getOccupiedBitboard p) s"
      by (simp_all add: canCastle_eq)
    from co r have h: "board p (kingHome (turn p)) = Some (KING, turn p)"
      and rk: "board p (getCastlingRookSquare (turn p) False) = Some (ROOK, turn p)"
      by (auto simp add: castling_ok_def)
    have kh: "k = kingHome (turn p)" using k h by (simp add: kingSquare_def)
    have e1: "board p (kingHome (turn p) - 1) = None" "board p (kingHome (turn p) - 2) = None"
      using bt ok by (cases "turn p"; simp add: castleBetween_def occupied_iff kingHome_def no_Some_pair)+
    show ?thesis unfolding queenSide(2) kh using h rk e1
      by (cases "turn p")
        (simp_all add: move_ok_def isCapture_def isPromotion_def isCastle_def kingHome_def
          rookFrom_def rookTo_def getCastlingRookSquare_def getCastlingIndex_def ROOK_INDICES_def)
  qed
  then show "move_ok p m" "isCastle m" by simp_all
qed

section \<open>Rejected and accepted moves\<close>

lemma hashHistory_primitives:
  "capturePiece rv (p\<lparr>hashHistory := h\<rparr>) piece color q = (capturePiece rv p piece color q)\<lparr>hashHistory := h\<rparr>"
  "unCapturePiece rv (p\<lparr>hashHistory := h\<rparr>) piece color q = (unCapturePiece rv p piece color q)\<lparr>hashHistory := h\<rparr>"
  "movePiece rv (p\<lparr>hashHistory := h\<rparr>) piece color f t = (movePiece rv p piece color f t)\<lparr>hashHistory := h\<rparr>"
  "promotePiece rv (p\<lparr>hashHistory := h\<rparr>) pieceOld pieceNew color t
     = (promotePiece rv p pieceOld pieceNew color t)\<lparr>hashHistory := h\<rparr>"
  "castleRook rv (p\<lparr>hashHistory := h\<rparr>) color kingSide = (castleRook rv p color kingSide)\<lparr>hashHistory := h\<rparr>"
  "unCastleRook rv (p\<lparr>hashHistory := h\<rparr>) color kingSide = (unCastleRook rv p color kingSide)\<lparr>hashHistory := h\<rparr>"
  by (simp_all add: capturePiece_def unCapturePiece_def movePiece_def promotePiece_def castleRook_def
      unCastleRook_def Let_def)

lemma hashHistory_updatePieces:
  "updatePieces rv (p\<lparr>hashHistory := h\<rparr>) m = (updatePieces rv p m)\<lparr>hashHistory := h\<rparr>"
  by (simp add: updatePieces_def hashHistory_primitives getTurnColor_def Let_def)

lemma hashHistory_revertPieces:
  "revertPieces rv (p\<lparr>hashHistory := h\<rparr>) m = (revertPieces rv p m)\<lparr>hashHistory := h\<rparr>"
  by (simp add: revertPieces_def hashHistory_primitives getTurnColor_def Let_def)

lemma hashHistory_bitboards:
  "getPieceColorBitboard (p\<lparr>hashHistory := h\<rparr>) = getPieceColorBitboard p"
  "getOccupiedBitboard (p\<lparr>hashHistory := h\<rparr>) = getOccupiedBitboard p"
  by (simp_all add: getPieceColorBitboard_def getColorBitboard_def getOccupiedBitboard_def fun_eq_iff)

lemma hashHistory_isKingInCheck: "isKingInCheck (p\<lparr>hashHistory := h\<rparr>) = isKingInCheck p"
  by (simp add: isKingInCheck_def isAttacked_def getTurnColor_def getKingPosition_def
      hashHistory_bitboards Let_def cong: option.case_cong if_cong)

text \<open>
  The test of \<^verbatim>\<open>makeMove\<close> and \<^verbatim>\<open>isMoveLegal\<close>: after the pieces have been moved, is the
  king of the side that moved attacked by the other side?
\<close>

definition leavesKingAttacked :: "(int \<Rightarrow> 32 word) \<Rightarrow> position \<Rightarrow> move \<Rightarrow> bool" where
  "leavesKingAttacked rv p m =
     (let q = updatePieces rv p m
      in attackedBy q (getOtherPieceColor (turn p)) (getKingPosition q (turn p)))"

lemma getPromotedPiece_not_king: "getPromotedPiece m \<noteq> KING"
proof -
  have "getKind m AND 3 = take_bit 2 (getKind m)" by (simp add: take_bit_eq_mask mask_eq_exp_minus_1)
  moreover have "take_bit 2 (getKind m) < 2 ^ 2" by (rule take_bit_nat_less_exp)
  ultimately show ?thesis by (simp add: getPromotedPiece_def)
qed

lemma kingSquare_own_after:
  assumes ok: "boards_ok p" and mo: "move_ok p m" and k: "kingSquare p (turn p) k"
  shows "kingSquare (updatePieces rv p m) (turn p) (if getPiece m = KING then getTo m else k)"
proof -
  let ?c = "turn p" and ?o = "getOtherPieceColor (turn p)"
  let ?k' = "if getPiece m = KING then getTo m else k"
  note u = updatePieces_board [OF ok mo, of rv]
  have k64: "k < 64" and kb: "\<And>i. i < 64 \<Longrightarrow> board p i = Some (KING, ?c) \<longleftrightarrow> i = k"
    using k by (simp_all add: kingSquare_def)
  have frm: "board p (getFrom m) = Some (getPiece m, ?c)" and ne: "getFrom m \<noteq> getTo m"
    using mo by (simp_all add: move_ok_def)
  have tob: "board p (getTo m) \<noteq> Some (KING, ?c)"
    using mo by (auto simp add: move_ok_def split: if_splits)
  have pr: "isPromotion m \<Longrightarrow> getPiece m = PAWN" using mo by (simp add: move_ok_def)
  have cap: "isCapture m \<Longrightarrow> board p (nat (getCaptureSquare m)) \<noteq> Some (KING, ?c)"
    using mo by (auto simp add: move_ok_def getCaptureSquare_def split: if_splits)
  have cas: "isCastle m \<Longrightarrow> getPiece m = KING \<and> board p (rookFrom ?c (getKind m)) \<noteq> Some (KING, ?c)
      \<and> board p (rookTo ?c (getKind m)) \<noteq> Some (KING, ?c)"
    using mo by (simp add: move_ok_def)
  have fk: "getPiece m = KING \<longleftrightarrow> getFrom m = k" using frm kb [of "getFrom m"] by auto
  have "boardAfter p m i = Some (KING, ?c) \<longleftrightarrow> i = ?k'" if i: "i < 64" for i
  proof (cases "i = getTo m")
    case True
    then show ?thesis using pr tob kb [of "getTo m"] getPromotedPiece_not_king [of m]
      by (auto simp add: boardAfter_def Let_def)
  next
    case nt: False
    show ?thesis
    proof (cases "i = getFrom m")
      case True
      then show ?thesis using nt fk by (auto simp add: boardAfter_def Let_def)
    next
      case nf: False
      have ik: "i = ?k' \<longleftrightarrow> board p i = Some (KING, ?c)" using nt nf fk kb [OF i] by auto
      show ?thesis unfolding ik using nt nf cap cas fk
        by (auto simp add: boardAfter_def Let_def)
    qed
  qed
  moreover have "?k' < 64" using k64 by simp
  ultimately show ?thesis using u by (simp add: kingSquare_def)
qed

lemma isKingInCheck_after:
  assumes ok: "boards_ok p" and mo: "move_ok p m" and k: "kingSquare p (turn p) k"
  shows "isKingInCheck (updatePieces rv p m) = Some (leavesKingAttacked rv p m)"
proof -
  let ?q = "updatePieces rv p m"
  have okq: "boards_ok ?q" using updatePieces_board [OF ok mo, of rv] by simp
  note kq = kingSquare_own_after [OF ok mo k, of rv]
  have "getKingPosition ?q (turn p) < 64"
    using getKingPosition_eq [OF okq kq] kq by (simp add: kingSquare_def)
  then show ?thesis
    by (simp add: isKingInCheck_def getTurnColor_def leavesKingAttacked_def isAttacked_eq Let_def)
qed

lemma makeMove_rejected:
  assumes ok: "boards_ok p" and mo: "move_ok p m" and k: "kingSquare p (turn p) k"
    and att: "leavesKingAttacked rv p m"
  shows "makeMove rv p m = Some (False, p)"
proof -
  have "butlast (hashHistory p @ [hashKey p]) = hashHistory p" by simp
  then show ?thesis
    using isKingInCheck_after [OF ok mo k, of rv] att revert_update [OF ok mo, of rv]
    by (simp add: makeMove_def Let_def hashHistory_updatePieces hashHistory_revertPieces
        hashHistory_isKingInCheck)
qed

lemma isMoveLegal_eq:
  assumes ok: "boards_ok p" and mo: "move_ok p m" and k: "kingSquare p (turn p) k"
  shows "isMoveLegal rv p m = Some (\<not> leavesKingAttacked rv p m, p)"
  using isKingInCheck_after [OF ok mo k, of rv] revert_update [OF ok mo, of rv]
  by (simp add: isMoveLegal_def Let_def)

lemma filterLegal_eq:
  assumes ok: "boards_ok p" and k: "kingSquare p (turn p) k"
  shows "(\<forall>m\<in>set ms. move_ok p m) \<Longrightarrow>
           filterLegal rv p ms = Some (filter (\<lambda>m. \<not> leavesKingAttacked rv p m) ms, p)"
  by (induction ms) (simp_all add: isMoveLegal_eq [OF ok _ k])

subsection \<open>Every generated move fits the board\<close>

definition consistent :: "position \<Rightarrow> bool" where
  "consistent p \<longleftrightarrow>
     boards_ok p \<and> (\<exists>k. kingSquare p (turn p) k) \<and> castling_ok p \<and> enPassant_ok p"

lemma wf_consistent: "wf_position p \<Longrightarrow> consistent p"
  by (auto simp add: wf_position_def consistent_def)

lemma generateMoves_Some:
  assumes "consistent p"
  shows "\<exists>ms. generateMoves p onlyCaptures = Some ms"
proof -
  from assms obtain k where ok: "boards_ok p" and k: "kingSquare p (turn p) k"
    by (auto simp add: consistent_def)
  have "getKingPosition p (turn p) < 64" using getKingPosition_eq [OF ok k] k by (simp add: kingSquare_def)
  then show ?thesis by (simp add: generateMoves_parts canCastle_eq)
qed

lemma plainMoves_ok:
  assumes ok: "boards_ok p" and k: "kingSquare p (turn p) k" and ep: "enPassant_ok p"
    and m: "m \<in> set (plainMoves p onlyCaptures)"
  shows "move_ok p m \<and> doublePush_ok p m"
proof -
  have dp: "getKind m \<noteq> DOUBLE_PAWN_PUSH \<Longrightarrow> doublePush_ok p m" for m
    by (simp add: doublePush_ok_def)
  from m consider
      (quiet) "m \<in> set (pawnQuietMoves p)"
    | (capture) left where "m \<in> set (pawnCaptureMoves p left)"
    | (enPassant) left where "canEnPassant p" "m \<in> set (enPassantMoves p left)"
    | (knight) "m \<in> set (pieceMoves p onlyCaptures KNIGHT)"
    | (queen) "m \<in> set (pieceMoves p onlyCaptures QUEEN)"
    | (bishop) "m \<in> set (pieceMoves p onlyCaptures BISHOP)"
    | (rook) "m \<in> set (pieceMoves p onlyCaptures ROOK)"
    | (king) "m \<in> set (kingMoves p onlyCaptures)"
    by (auto simp add: plainMoves_def split: if_splits)
  then show ?thesis
  proof cases
    case quiet
    then show ?thesis using pawnQuietMoves_ok [OF ok] by simp
  next
    case capture
    then show ?thesis using pawnCaptureMoves_ok [OF ok] dp by blast
  next
    case enPassant
    then show ?thesis using enPassantMoves_ok [OF ok ep] dp [of m] by simp
  next
    case knight
    then show ?thesis using pieceMoves_ok [OF ok _ _ knight] dp [of m] by simp
  next
    case queen
    then show ?thesis using pieceMoves_ok [OF ok _ _ queen] dp [of m] by simp
  next
    case bishop
    then show ?thesis using pieceMoves_ok [OF ok _ _ bishop] dp [of m] by simp
  next
    case rook
    then show ?thesis using pieceMoves_ok [OF ok _ _ rook] dp [of m] by simp
  next
    case king
    then show ?thesis using kingMoves_ok [OF ok k] dp by blast
  qed
qed

lemma generateMoves_ok:
  assumes c: "consistent p" and g: "generateMoves p onlyCaptures = Some ms" and m: "m \<in> set ms"
  shows "move_ok p m" and "doublePush_ok p m"
proof -
  from c obtain k where ok: "boards_ok p" and k: "kingSquare p (turn p) k"
    and co: "castling_ok p" and ep: "enPassant_ok p"
    by (auto simp add: consistent_def)
  have kp: "getKingPosition p (turn p) < 64" using getKingPosition_eq [OF ok k] k by (simp add: kingSquare_def)
  from g m kp consider
      (plain) "m \<in> set (plainMoves p onlyCaptures)"
    | (castle) kc qc where "canCastle p (turn p) True True = Some kc"
        "canCastle p (turn p) False True = Some qc" "m \<in> set (castleMoves p kc qc)"
    by (auto simp add: generateMoves_parts canCastle_eq split: if_splits)
  then have "move_ok p m \<and> doublePush_ok p m"
  proof cases
    case plain
    then show ?thesis by (rule plainMoves_ok [OF ok k ep])
  next
    case castle
    note r = castleMoves_ok [OF ok co k castle]
    then have "getKind m \<noteq> DOUBLE_PAWN_PUSH" by (auto simp add: isCastle_def)
    then show ?thesis using r by (simp add: doublePush_ok_def)
  qed
  then show "move_ok p m" "doublePush_ok p m" by simp_all
qed

section \<open>A position with a pinned rook\<close>

text \<open>White: king e1, rook e2; black: king e8, rook e7; white to move.\<close>

definition pinPosition :: position where
  "pinPosition =
     \<lparr>hashKey = \<lparr>zlow = 0, zhigh = 0\<rparr>,
      bitboards = [makeZero, makeZero, makeZero, or_bb (makeIndex 12) (makeIndex 52), makeZero,
                   or_bb (makeIndex 4) (makeIndex 60), or_bb (makeIndex 4) (makeIndex 12),
                   or_bb (makeIndex 52) (makeIndex 60)],
      pieces = (\<lambda>index. if index = 4 \<or> index = 60 then Some KING
                         else if index = 12 \<or> index = 52 then Some ROOK else None),
      turn = WHITE, castlingRights = 0, enPassantSquare = - 1, halfmoveClock = 0,
      madeMoves = [], irreversibleHistory = [], hashHistory = [], halfMoveClock = None\<rparr>"

definition pinBoard :: "nat \<Rightarrow> (nat \<times> color) option" where
  "pinBoard i = (if i = 4 then Some (KING, WHITE) else if i = 12 then Some (ROOK, WHITE)
                 else if i = 52 then Some (ROOK, BLACK) else if i = 60 then Some (KING, BLACK) else None)"

lemma less6_cases: "piece < 6 \<Longrightarrow> piece = 0 \<or> piece = 1 \<or> piece = 2 \<or> piece = 3 \<or> piece = 4 \<or> piece = (5::nat)"
  by arith

lemma pinPosition_board: "boards_ok pinPosition" "\<And>i. i < 64 \<Longrightarrow> board pinPosition i = pinBoard i"
proof -
  have pc: "pieceOn pinPosition piece i \<longleftrightarrow> (\<exists>c. pinBoard i = Some (piece, c))"
    if "i < 64" "piece < 6" for i piece
    using that less6_cases [of piece] by (auto simp add: pieceOn_def pinPosition_def pinBoard_def)
  have col: "colorOn pinPosition c i \<longleftrightarrow> (\<exists>piece. pinBoard i = Some (piece, c))" if "i < 64" for i c
    using that by (cases c) (auto simp add: colorOn_def pinPosition_def pinBoard_def)
  have lt: "piece < 6" if "pinBoard i = Some (piece, c)" for i piece c
    using that by (auto simp add: pinBoard_def split: if_splits)
  have tab: "pieces pinPosition (int i) = map_option fst (pinBoard i)" for i
    by (simp add: pinPosition_def pinBoard_def)
  have out: "pieces pinPosition index = None" if "index < 0 \<or> 64 \<le> index" for index
    using that by (auto simp add: pinPosition_def)
  have len: "length (bitboards pinPosition) = 8" by (simp add: pinPosition_def)
  show "boards_ok pinPosition"
    by (rule boards_okI(1) [where brd = pinBoard]) (simp_all add: len pc col lt tab out)
  show "\<And>i. i < 64 \<Longrightarrow> board pinPosition i = pinBoard i"
    by (rule boards_okI(2) [where brd = pinBoard]) (simp_all add: len pc col lt tab out)
qed

lemma pinPosition_consistent: "consistent pinPosition"
proof -
  have "kingSquare pinPosition WHITE 4"
    by (simp add: kingSquare_def pinPosition_board pinBoard_def)
  moreover have "turn pinPosition = WHITE" "castlingRights pinPosition = 0" "enPassantSquare pinPosition = - 1"
    by (simp_all add: pinPosition_def)
  ultimately show ?thesis
    by (auto simp add: consistent_def pinPosition_board castling_ok_def hasCastlingRight_def enPassant_ok_def)
qed

lemma addNormalMoves_member:
  "to < 64 \<Longrightarrow> isSet toMask to \<Longrightarrow>
     Move (int frm) (int to) (if isSet opponentBB to then CAPTURE else POSITIONAL) piece
       (getPieceAtOrNull p (int to)) \<in> set (addNormalMoves p opponentBB frm toMask piece)"
  by (auto simp add: addNormalMoves_def Let_def)

lemma pinPosition_king: "getKingPosition pinPosition WHITE = 4"
  by (rule getKingPosition_eq) (simp_all add: pinPosition_board kingSquare_def pinBoard_def)

lemma pinPosition_moves:
  "\<exists>ms. generateMoves pinPosition False = Some ms \<and> Move 12 8 POSITIONAL ROOK None \<in> set ms"
proof -
  have t: "turn pinPosition = WHITE" by (simp add: pinPosition_def)
  have r: "isSet (getPieceColorBitboard pinPosition ROOK WHITE) 12"
    by (simp add: getPieceColorBitboard_iff pinPosition_board pinBoard_def)
  have "isSet (and_bb (pieceAttackMask pinPosition ROOK 12) (targetMask pinPosition False)) 8"
    by (simp add: pieceAttackMask_def targetMask_def pinPosition_def attack_defs table_defs bb_defs Let_def)
  from addNormalMoves_member [OF _ this, where opponentBB = "getColorBitboard pinPosition BLACK"
      and frm = 12 and piece = ROOK and p = pinPosition]
  have "Move 12 8 POSITIONAL ROOK None
          \<in> set (addNormalMoves pinPosition (getColorBitboard pinPosition BLACK) 12
                (and_bb (pieceAttackMask pinPosition ROOK 12) (targetMask pinPosition False)) ROOK)"
    by (simp add: getColorBitboard_iff pinPosition_board pinBoard_def getPieceAtOrNull_def)
      (simp add: pinPosition_def)
  with r have "Move 12 8 POSITIONAL ROOK None \<in> set (pieceMoves pinPosition False ROOK)"
    unfolding pieceMoves_def t by (auto intro!: exI [of _ 12])
  then have "Move 12 8 POSITIONAL ROOK None \<in> set (plainMoves pinPosition False)"
    by (simp add: plainMoves_def)
  then show ?thesis by (simp add: generateMoves_parts t pinPosition_king canCastle_eq)
qed

text \<open>Some table of random values, for the examples.\<close>

definition sampleKeys :: "int \<Rightarrow> 32 word" where
  "sampleKeys i = word_of_int (2654435761 * i + 40503)"

lemma pinPosition_pinned: "leavesKingAttacked rv pinPosition (Move 12 8 POSITIONAL ROOK None)"
  by (simp add: leavesKingAttacked_def updatePieces_def movePiece_def isCapture_def isCastle_def
      isPromotion_def getTurnColor_def pinPosition_def attack_defs table_defs bb_defs Let_def)

section \<open>A rejected move leaves the position as it was\<close>

text \<open>
  Claim C2.  In a consistent position (one board, a king of the side to move, castling
  rights and en-passant square that agree with the board), for every move \<open>m\<close> that the
  generator produces (with or without \<open>onlyCaptures\<close>), if moving the pieces of \<open>m\<close>
  leaves the king of the side that moves attacked by the other side, then \<open>makeMove\<close>
  returns false and the position it returns is the position it was given: every field of
  the record, so the bitboards, the piece table, the turn, the castling rights, the
  en-passant square, the halfmove clock, the hash and the three history stacks.
\<close>

theorem makeMove_rejected_unchanged:
  assumes "consistent p" and "generateMoves p onlyCaptures = Some ms" and "m \<in> set ms"
    and "leavesKingAttacked rv p m"
  shows "makeMove rv p m = Some (False, p)"
proof -
  from assms(1) obtain k where ok: "boards_ok p" and k: "kingSquare p (turn p) k"
    by (auto simp add: consistent_def)
  have mo: "move_ok p m" using assms(1-3) by (rule generateMoves_ok)
  show ?thesis using ok mo k assms(4) by (rule makeMove_rejected)
qed

theorem makeMove_rejected_unchanged_witness:
  "consistent pinPosition
   \<and> (\<exists>ms. generateMoves pinPosition False = Some ms \<and> Move 12 8 POSITIONAL ROOK None \<in> set ms)
   \<and> leavesKingAttacked sampleKeys pinPosition (Move 12 8 POSITIONAL ROOK None)
   \<and> makeMove sampleKeys pinPosition (Move 12 8 POSITIONAL ROOK None) = Some (False, pinPosition)"
proof -
  from pinPosition_moves obtain ms where ms: "generateMoves pinPosition False = Some ms"
    "Move 12 8 POSITIONAL ROOK None \<in> set ms" by blast
  from makeMove_rejected_unchanged [OF pinPosition_consistent ms pinPosition_pinned, of sampleKeys]
  show ?thesis using pinPosition_consistent ms pinPosition_pinned by blast
qed

subsection \<open>What an accepted move changes\<close>

lemma clearCastlingRight_frame [simp]:
  "bitboards (clearCastlingRight rv p c s) = bitboards p"
  "pieces (clearCastlingRight rv p c s) = pieces p"
  "turn (clearCastlingRight rv p c s) = turn p"
  "enPassantSquare (clearCastlingRight rv p c s) = enPassantSquare p"
  "halfmoveClock (clearCastlingRight rv p c s) = halfmoveClock p"
  "madeMoves (clearCastlingRight rv p c s) = madeMoves p"
  "irreversibleHistory (clearCastlingRight rv p c s) = irreversibleHistory p"
  "hashHistory (clearCastlingRight rv p c s) = hashHistory p"
  "halfMoveClock (clearCastlingRight rv p c s) = halfMoveClock p"
  "castlingRights (clearCastlingRight rv p c s)
     = castlingRights p AND NOT (push_bit (getCastlingIndex c s) 1)"
  by (simp_all add: clearCastlingRight_def Let_def)

text \<open>The part of the hash that does not come from the pieces.\<close>

definition frameKey :: "(int \<Rightarrow> 32 word) \<Rightarrow> color \<Rightarrow> int \<Rightarrow> int \<Rightarrow> hashval" where
  "frameKey rv c rights ep =
     (if c = WHITE then 0 else key rv 0) + key rv (1538 + rights) + epKey rv ep"

lemma hv_clearCastlingRight:
  "hv (hashKey (clearCastlingRight rv p c s)) + key rv (1538 + castlingRights (clearCastlingRight rv p c s))
     = hv (hashKey p) + key rv (1538 + castlingRights p)"
  by (simp add: clearCastlingRight_def Let_def add.assoc)

text \<open>The castling rights after a move, as \<^verbatim>\<open>makeMove\<close> computes them.\<close>

definition rightsAfter :: "position \<Rightarrow> move \<Rightarrow> int" where
  "rightsAfter p m =
     (let c = turn p; oc = getOtherPieceColor c; r0 = castlingRights p;
          r1 = (if getPiece m = KING
                then (r0 AND NOT (push_bit (getCastlingIndex c True) 1))
                       AND NOT (push_bit (getCastlingIndex c False) 1)
                else if getPiece m = ROOK then
                  (if getFrom m = getCastlingRookSquare c True
                   then r0 AND NOT (push_bit (getCastlingIndex c True) 1)
                   else if getFrom m = getCastlingRookSquare c False
                   then r0 AND NOT (push_bit (getCastlingIndex c False) 1)
                   else r0)
                else r0)
      in if getCapturedPiece m = ROOK then
           (if getCaptureSquare m = int (getCastlingRookSquare oc True)
            then r1 AND NOT (push_bit (getCastlingIndex oc True) 1)
            else if getCaptureSquare m = int (getCastlingRookSquare oc False)
            then r1 AND NOT (push_bit (getCastlingIndex oc False) 1)
            else r1)
         else r1)"

lemma makeMove_Some:
  assumes ok: "boards_ok p" and mo: "move_ok p m" and k: "kingSquare p (turn p) k"
  shows "\<exists>q. makeMove rv p m = Some (\<not> leavesKingAttacked rv p m, q)"
proof (cases "leavesKingAttacked rv p m")
  case True
  then show ?thesis using makeMove_rejected [OF ok mo k, of rv] by simp
next
  case False
  then have c: "isKingInCheck (updatePieces rv (p\<lparr>hashHistory := hashHistory p @ [hashKey p]\<rparr>) m)
                  = Some False"
    using isKingInCheck_after [OF ok mo k, of rv]
    by (simp add: hashHistory_updatePieces hashHistory_isKingInCheck)
  have "\<exists>q. makeMove rv p m = Some (True, q)"
    unfolding makeMove_def Let_def c by (simp only: bind.bind_lunit if_False) (rule exI, rule refl)
  with False show ?thesis by simp
qed

lemma makeMove_accepted:
  assumes ok: "boards_ok p" and mo: "move_ok p m" and k: "kingSquare p (turn p) k"
    and mk: "makeMove rv p m = Some (True, q)"
  shows "\<not> leavesKingAttacked rv p m"
    and "bitboards q = bitboards (updatePieces rv p m)"
    and "pieces q = pieces (updatePieces rv p m)"
    and "turn q = getOtherPieceColor (turn p)"
    and "enPassantSquare q = (if getKind m = DOUBLE_PAWN_PUSH then int (getTo m) else - 1)"
    and "castlingRights q = rightsAfter p m"
    and "halfmoveClock q = (if isCapture m \<or> getPiece m = PAWN then 0 else halfmoveClock p + 1)"
    and "madeMoves q = madeMoves p @ [m]"
    and "irreversibleHistory q
           = irreversibleHistory p @ [enPassantSquare p, castlingRights p, halfmoveClock p]"
    and "hashHistory q = hashHistory p @ [hashKey p]"
    and "halfMoveClock q = halfMoveClock p"
    and "hv (hashKey q) + frameKey rv (turn q) (castlingRights q) (enPassantSquare q)
           = hv (hashKey p) + frameKey rv (turn p) (castlingRights p) (enPassantSquare p)
             + piecesDelta rv (turn p) m"
proof -
  note c = isKingInCheck_after [OF ok mo k, of rv]
  from makeMove_Some [OF ok mo k, of rv] mk
  show safe: "\<not> leavesKingAttacked rv p m" by auto
  have fr: "same_frame p (updatePieces rv p m)" by simp
  note f = frameD [OF fr]
  let ?c = "turn p" and ?o = "getOtherPieceColor (turn p)"
  define p1 where "p1 = updatePieces rv (p\<lparr>hashHistory := hashHistory p @ [hashKey p]\<rparr>) m"
  define p2 where "p2 = p1\<lparr>madeMoves := madeMoves p1 @ [m],
                    irreversibleHistory := irreversibleHistory p1
                      @ [enPassantSquare p1, castlingRights p1, halfmoveClock p1]\<rparr>"
  define ep where "ep = (if getKind m = DOUBLE_PAWN_PUSH then int (getTo m) else - 1)"
  define p3 where "p3 = p2\<lparr>enPassantSquare := ep,
      hashKey := updateEnPassantSquare rv (updateEnPassantSquare rv (hashKey p2) (enPassantSquare p2)) ep\<rparr>"
  define p4 where "p4 = (if getPiece m = KING
                  then clearCastlingRight rv (clearCastlingRight rv p3 (turn p3) True) (turn p3) False
                  else if getPiece m = ROOK then
                    (if getFrom m = getCastlingRookSquare (turn p3) True
                     then clearCastlingRight rv p3 (turn p3) True
                     else if getFrom m = getCastlingRookSquare (turn p3) False
                     then clearCastlingRight rv p3 (turn p3) False
                     else p3)
                  else p3)"
  define p5 where "p5 = (if getCapturedPiece m = ROOK then
                    (if getCaptureSquare m = int (getCastlingRookSquare (getOtherPieceColor (turn p3)) True)
                     then clearCastlingRight rv p4 (getOtherPieceColor (turn p3)) True
                     else if getCaptureSquare m = int (getCastlingRookSquare (getOtherPieceColor (turn p3)) False)
                     then clearCastlingRight rv p4 (getOtherPieceColor (turn p3)) False
                     else p4)
                  else p4)"
  define p6 where "p6 = (if isCapture m \<or> getPiece m = PAWN
                  then p5\<lparr>halfmoveClock := 0\<rparr>
                  else p5\<lparr>halfmoveClock := halfmoveClock p5 + 1\<rparr>)"
  have c1: "isKingInCheck (updatePieces rv (p\<lparr>hashHistory := hashHistory p @ [hashKey p]\<rparr>) m)
                  = Some False"
    using c safe by (simp add: hashHistory_updatePieces hashHistory_isKingInCheck)
  have "makeMove rv p m
      = Some (True, p6\<lparr>turn := getOtherPieceColor (turn p3), hashKey := updateTurn rv (hashKey p6)\<rparr>)"
    unfolding makeMove_def Let_def getTurnColor_def c1
    unfolding p6_def p5_def p4_def p3_def p2_def ep_def p1_def
    by (simp only: bind.bind_lunit if_False)
  with mk have qq: "q = p6\<lparr>turn := getOtherPieceColor (turn p3), hashKey := updateTurn rv (hashKey p6)\<rparr>"
    by simp
  have t1: "turn p1 = ?c" "castlingRights p1 = castlingRights p" "enPassantSquare p1 = enPassantSquare p"
    "halfmoveClock p1 = halfmoveClock p" "madeMoves p1 = madeMoves p"
    "irreversibleHistory p1 = irreversibleHistory p" "hashHistory p1 = hashHistory p @ [hashKey p]"
    "halfMoveClock p1 = halfMoveClock p" "bitboards p1 = bitboards (updatePieces rv p m)"
    "pieces p1 = pieces (updatePieces rv p m)"
    by (simp_all add: p1_def hashHistory_updatePieces f)
  have h1: "hv (hashKey p1) = hv (hashKey p) + piecesDelta rv ?c m"
    by (simp add: p1_def hv_updatePieces)
  have t3: "turn p3 = ?c" "castlingRights p3 = castlingRights p" "enPassantSquare p3 = ep"
    "halfmoveClock p3 = halfmoveClock p" "madeMoves p3 = madeMoves p @ [m]"
    "irreversibleHistory p3 = irreversibleHistory p @ [enPassantSquare p, castlingRights p, halfmoveClock p]"
    "hashHistory p3 = hashHistory p @ [hashKey p]"
    "halfMoveClock p3 = halfMoveClock p" "bitboards p3 = bitboards (updatePieces rv p m)"
    "pieces p3 = pieces (updatePieces rv p m)"
    by (simp_all add: p3_def p2_def t1)
  have h3: "hv (hashKey p3) + epKey rv ep = hv (hashKey p1) + epKey rv (enPassantSquare p)"
    by (simp add: p3_def p2_def t1 add.assoc)
  have t4: "turn p4 = ?c" "enPassantSquare p4 = ep"
    "halfmoveClock p4 = halfmoveClock p" "madeMoves p4 = madeMoves p3"
    "irreversibleHistory p4 = irreversibleHistory p3"
    "hashHistory p4 = hashHistory p3"
    "halfMoveClock p4 = halfMoveClock p" "bitboards p4 = bitboards (updatePieces rv p m)"
    "pieces p4 = pieces (updatePieces rv p m)"
    by (simp_all add: p4_def t3)
  have h4: "hv (hashKey p4) + key rv (1538 + castlingRights p4)
              = hv (hashKey p3) + key rv (1538 + castlingRights p3)"
    unfolding p4_def by (simp add: hv_clearCastlingRight del: clearCastlingRight_frame(10))
  have t5: "turn p5 = ?c" "enPassantSquare p5 = ep"
    "halfmoveClock p5 = halfmoveClock p" "madeMoves p5 = madeMoves p3"
    "irreversibleHistory p5 = irreversibleHistory p3"
    "hashHistory p5 = hashHistory p3"
    "halfMoveClock p5 = halfMoveClock p" "bitboards p5 = bitboards (updatePieces rv p m)"
    "pieces p5 = pieces (updatePieces rv p m)"
    by (simp_all add: p5_def t4)
  have r5: "castlingRights p5 = rightsAfter p m"
    by (simp add: p5_def p4_def t3 rightsAfter_def Let_def)
  have h5: "hv (hashKey p5) + key rv (1538 + castlingRights p5)
              = hv (hashKey p4) + key rv (1538 + castlingRights p4)"
    unfolding p5_def by (simp add: hv_clearCastlingRight del: clearCastlingRight_frame(10))
  have t6: "enPassantSquare p6 = ep" "castlingRights p6 = castlingRights p5" "hashKey p6 = hashKey p5"
    "halfmoveClock p6 = (if isCapture m \<or> getPiece m = PAWN then 0 else halfmoveClock p + 1)"
    "madeMoves p6 = madeMoves p3"
    "irreversibleHistory p6 = irreversibleHistory p3"
    "hashHistory p6 = hashHistory p3"
    "halfMoveClock p6 = halfMoveClock p" "bitboards p6 = bitboards (updatePieces rv p m)"
    "pieces p6 = pieces (updatePieces rv p m)"
    by (simp_all add: p6_def t5)
  show "bitboards q = bitboards (updatePieces rv p m)" "pieces q = pieces (updatePieces rv p m)"
    "turn q = getOtherPieceColor (turn p)"
    "enPassantSquare q = (if getKind m = DOUBLE_PAWN_PUSH then int (getTo m) else - 1)"
    "castlingRights q = rightsAfter p m"
    "halfmoveClock q = (if isCapture m \<or> getPiece m = PAWN then 0 else halfmoveClock p + 1)"
    "madeMoves q = madeMoves p @ [m]"
    "irreversibleHistory q = irreversibleHistory p @ [enPassantSquare p, castlingRights p, halfmoveClock p]"
    "hashHistory q = hashHistory p @ [hashKey p]"
    "halfMoveClock q = halfMoveClock p"
    by (simp_all add: qq t6 t3 r5 ep_def)
  have "hv (hashKey q) + frameKey rv (turn q) (castlingRights q) (enPassantSquare q)
          = (hv (hashKey p5) + key rv (1538 + castlingRights p5)) + epKey rv ep
            + (key rv 0 + (if ?o = WHITE then 0 else key rv 0))"
    by (simp add: qq t6 t3 frameKey_def add.assoc add.left_commute)
  also have "hv (hashKey p5) + key rv (1538 + castlingRights p5)
               = hv (hashKey p3) + key rv (1538 + castlingRights p)"
    by (simp add: h5 h4 t3)
  also have "key rv 0 + (if ?o = WHITE then 0 else key rv 0) = (if ?c = WHITE then 0 else key rv 0)"
    by (cases "turn p") simp_all
  also have "hv (hashKey p3) + key rv (1538 + castlingRights p) + epKey rv ep
      = (hv (hashKey p3) + epKey rv ep) + key rv (1538 + castlingRights p)"
    by (simp add: add.assoc add.commute)
  finally show "hv (hashKey q) + frameKey rv (turn q) (castlingRights q) (enPassantSquare q)
           = hv (hashKey p) + frameKey rv (turn p) (castlingRights p) (enPassantSquare p)
             + piecesDelta rv (turn p) m"
    by (simp add: h3 h1 frameKey_def add.assoc add.left_commute)
qed

lemma bitboards_cong:
  assumes "bitboards q = bitboards q'"
  shows "attackedBy q = attackedBy q'" and "getKingPosition q = getKingPosition q'"
    and "getPieceColorBitboard q = getPieceColorBitboard q'"
    and "getColorBitboard q = getColorBitboard q'"
    and "getOccupiedBitboard q = getOccupiedBitboard q'"
  using assms
  by (simp_all add: attackedBy_def getKingPosition_def getPieceColorBitboard_def getColorBitboard_def
      getOccupiedBitboard_def fun_eq_iff)

lemma getMoves_eq:
  assumes c: "consistent p" and g: "generateMoves p onlyCaptures = Some ms"
  shows "getMoves rv p True onlyCaptures = Some (ms, p)"
    and "getMoves rv p False onlyCaptures = Some (filter (\<lambda>m. \<not> leavesKingAttacked rv p m) ms, p)"
proof -
  from c obtain k where ok: "boards_ok p" and k: "kingSquare p (turn p) k"
    by (auto simp add: consistent_def)
  show "getMoves rv p True onlyCaptures = Some (ms, p)" using g by (simp add: getMoves_def)
  have "\<forall>m\<in>set ms. move_ok p m" using generateMoves_ok(1) [OF c g] by blast
  then show "getMoves rv p False onlyCaptures = Some (filter (\<lambda>m. \<not> leavesKingAttacked rv p m) ms, p)"
    using g by (simp add: getMoves_def filterLegal_eq [OF ok k])
qed

section \<open>Legal moves\<close>

text \<open>
  Claim C5.  In a consistent position both variants of \<open>getMoves\<close> return and leave the
  position as it was; the legal list is the pseudo-legal list without the moves after
  which the mover's king is attacked, in the same order, so each of its moves is in the
  pseudo-legal list; and \<open>makeMove\<close> accepts each legal move, giving a position in which
  the king of the side that moved is not attacked by the side now to move.
\<close>

theorem legal_moves_sound:
  assumes "consistent p"
  shows "\<exists>pseudo legal.
           getMoves rv p True onlyCaptures = Some (pseudo, p)
           \<and> getMoves rv p False onlyCaptures = Some (legal, p)
           \<and> legal = filter (\<lambda>m. \<not> leavesKingAttacked rv p m) pseudo
           \<and> set legal \<subseteq> set pseudo
           \<and> (\<forall>m\<in>set legal. \<exists>q. makeMove rv p m = Some (True, q)
                  \<and> turn q = getOtherPieceColor (turn p)
                  \<and> \<not> attackedBy q (turn q) (getKingPosition q (turn p)))"
proof -
  from assms obtain k where ok: "boards_ok p" and k: "kingSquare p (turn p) k"
    by (auto simp add: consistent_def)
  from generateMoves_Some [OF assms] obtain ms where g: "generateMoves p onlyCaptures = Some ms" by blast
  let ?legal = "filter (\<lambda>m. \<not> leavesKingAttacked rv p m) ms"
  have "\<exists>q. makeMove rv p m = Some (True, q) \<and> turn q = getOtherPieceColor (turn p)
          \<and> \<not> attackedBy q (turn q) (getKingPosition q (turn p))" if m: "m \<in> set ?legal" for m
  proof -
    from m have ms: "m \<in> set ms" and safe: "\<not> leavesKingAttacked rv p m" by simp_all
    have mo: "move_ok p m" using assms g ms by (rule generateMoves_ok)
    from makeMove_Some [OF ok mo k, of rv] safe obtain q where q: "makeMove rv p m = Some (True, q)"
      by auto
    note a = makeMove_accepted [OF ok mo k q]
    have "\<not> attackedBy q (turn q) (getKingPosition q (turn p))"
      using safe a(4) bitboards_cong(1,2) [OF a(2)] by (simp add: leavesKingAttacked_def Let_def)
    with q a(4) show ?thesis by blast
  qed
  then show ?thesis using getMoves_eq [OF assms g, of rv] by auto
qed

theorem legal_moves_sound_witness:
  "consistent pinPosition
   \<and> (\<exists>pseudo legal.
         getMoves sampleKeys pinPosition True False = Some (pseudo, pinPosition)
         \<and> getMoves sampleKeys pinPosition False False = Some (legal, pinPosition)
         \<and> set legal \<subseteq> set pseudo
         \<and> Move 12 8 POSITIONAL ROOK None \<in> set pseudo
         \<and> Move 12 8 POSITIONAL ROOK None \<notin> set legal
         \<and> (\<forall>m\<in>set legal. \<exists>q. makeMove sampleKeys pinPosition m = Some (True, q)
                \<and> \<not> attackedBy q (turn q) (getKingPosition q WHITE)))"
proof -
  from legal_moves_sound [OF pinPosition_consistent, of sampleKeys False]
  obtain pseudo legal where r:
    "getMoves sampleKeys pinPosition True False = Some (pseudo, pinPosition)"
    "getMoves sampleKeys pinPosition False False = Some (legal, pinPosition)"
    "legal = filter (\<lambda>m. \<not> leavesKingAttacked sampleKeys pinPosition m) pseudo"
    "set legal \<subseteq> set pseudo"
    "\<forall>m\<in>set legal. \<exists>q. makeMove sampleKeys pinPosition m = Some (True, q)
        \<and> turn q = getOtherPieceColor (turn pinPosition)
        \<and> \<not> attackedBy q (turn q) (getKingPosition q (turn pinPosition))"
    by blast
  have t: "turn pinPosition = WHITE" by (simp add: pinPosition_def)
  from pinPosition_moves r(1) have "Move 12 8 POSITIONAL ROOK None \<in> set pseudo"
    by (auto simp add: getMoves_def)
  moreover have "Move 12 8 POSITIONAL ROOK None \<notin> set legal"
    using pinPosition_pinned [of sampleKeys] by (simp add: r(3))
  ultimately show ?thesis using r pinPosition_consistent unfolding t by blast
qed

section \<open>A stalemate in which every draw test holds\<close>

text \<open>
  White: king b6, bishop d6; black: king a8; black to move, halfmove clock 100, and
  three entries of the hash history equal to the current hash.
\<close>

definition stalematePosition :: position where
  "stalematePosition =
     \<lparr>hashKey = \<lparr>zlow = 0, zhigh = 0\<rparr>,
      bitboards = [makeZero, makeZero, makeIndex 43, makeZero, makeZero,
                   or_bb (makeIndex 41) (makeIndex 56), or_bb (makeIndex 41) (makeIndex 43),
                   makeIndex 56],
      pieces = (\<lambda>index. if index = 41 \<or> index = 56 then Some KING
                         else if index = 43 then Some BISHOP else None),
      turn = BLACK, castlingRights = 0, enPassantSquare = - 1, halfmoveClock = 100,
      madeMoves = [], irreversibleHistory = [],
      hashHistory = [\<lparr>zlow = 0, zhigh = 0\<rparr>, \<lparr>zlow = 0, zhigh = 0\<rparr>, \<lparr>zlow = 0, zhigh = 0\<rparr>],
      halfMoveClock = None\<rparr>"

definition stalemateBoard :: "nat \<Rightarrow> (nat \<times> color) option" where
  "stalemateBoard i = (if i = 41 then Some (KING, WHITE) else if i = 43 then Some (BISHOP, WHITE)
                       else if i = 56 then Some (KING, BLACK) else None)"

lemma stalematePosition_board:
  "boards_ok stalematePosition" "\<And>i. i < 64 \<Longrightarrow> board stalematePosition i = stalemateBoard i"
proof -
  have pc: "pieceOn stalematePosition piece i \<longleftrightarrow> (\<exists>c. stalemateBoard i = Some (piece, c))"
    if "i < 64" "piece < 6" for i piece
    using that less6_cases [of piece] by (auto simp add: pieceOn_def stalematePosition_def stalemateBoard_def)
  have col: "colorOn stalematePosition c i \<longleftrightarrow> (\<exists>piece. stalemateBoard i = Some (piece, c))"
    if "i < 64" for i c
    using that by (cases c) (auto simp add: colorOn_def stalematePosition_def stalemateBoard_def)
  have lt: "piece < 6" if "stalemateBoard i = Some (piece, c)" for i piece c
    using that by (auto simp add: stalemateBoard_def split: if_splits)
  have tab: "pieces stalematePosition (int i) = map_option fst (stalemateBoard i)" for i
    by (simp add: stalematePosition_def stalemateBoard_def)
  have out: "pieces stalematePosition index = None" if "index < 0 \<or> 64 \<le> index" for index
    using that by (auto simp add: stalematePosition_def)
  have len: "length (bitboards stalematePosition) = 8" by (simp add: stalematePosition_def)
  show "boards_ok stalematePosition"
    by (rule boards_okI(1) [where brd = stalemateBoard]) (simp_all add: len pc col lt tab out)
  show "\<And>i. i < 64 \<Longrightarrow> board stalematePosition i = stalemateBoard i"
    by (rule boards_okI(2) [where brd = stalemateBoard]) (simp_all add: len pc col lt tab out)
qed

lemma stalematePosition_frame:
  "turn stalematePosition = BLACK" "castlingRights stalematePosition = 0"
  "enPassantSquare stalematePosition = - 1" "halfmoveClock stalematePosition = 100"
  by (simp_all add: stalematePosition_def)

lemma stalematePosition_kingSquare: "kingSquare stalematePosition BLACK 56"
  by (simp add: kingSquare_def stalematePosition_board stalemateBoard_def)

lemma stalematePosition_consistent: "consistent stalematePosition"
  using stalematePosition_kingSquare
  by (auto simp add: consistent_def stalematePosition_board stalematePosition_frame castling_ok_def
      hasCastlingRight_def enPassant_ok_def)

lemma stalematePosition_king: "getKingPosition stalematePosition BLACK = 56"
  by (rule getKingPosition_eq [OF stalematePosition_board(1) stalematePosition_kingSquare])

lemma bitIndices_empty: "isEmpty b \<Longrightarrow> bitIndices b = []"
  by (simp add: bitIndices.simps)

lemma isEmpty_shiftLeft: "isEmpty x \<Longrightarrow> isEmpty (shiftLeft x d)"
proof -
  assume h: "isEmpty x"
  have "\<not> isSet (shiftLeft x d) i" if i: "i < 64" for i
  proof
    assume "isSet (shiftLeft x d) i"
    with i have a: "0 \<le> int i - d" "int i - d < 64" "isSet x (nat (int i - d))"
      by (simp_all add: isSet_shiftLeft)
    then have "nat (int i - d) < 64" by linarith
    with a(3) h show False by (auto simp add: isEmpty_iff)
  qed
  then show ?thesis by (simp add: isEmpty_iff)
qed

lemma isEmpty_and:
  "isEmpty x \<Longrightarrow> isEmpty (and_not x y)" "isEmpty x \<Longrightarrow> isEmpty (and_bb x y)"
  "isEmpty x \<Longrightarrow> isEmpty (and_bb y x)"
  by (simp_all add: isEmpty_iff)

lemma no_pawn_moves:
  assumes "isEmpty (getPieceColorBitboard p PAWN (turn p))"
  shows "pawnQuietMoves p = []" and "pawnCaptureMoves p left = []" and "enPassantMoves p left = []"
proof -
  show "pawnQuietMoves p = []"
    using assms
    by (simp add: pawnQuietMoves_def Let_def addPawnMoves_def addPawnPromotions_def bitIndices_empty
        isEmpty_shiftLeft isEmpty_and)
  show "pawnCaptureMoves p left = []"
    using assms
    by (simp add: pawnCaptureMoves_def Let_def addPawnMoves_def addPawnPromotions_def bitIndices_empty
        isEmpty_shiftLeft isEmpty_and)
  show "enPassantMoves p left = []"
    using assms
    by (simp add: enPassantMoves_def Let_def addPawnMoves_def bitIndices_empty
        isEmpty_shiftLeft isEmpty_and)
qed

lemma no_piece_moves:
  "isEmpty (getPieceColorBitboard p piece (turn p)) \<Longrightarrow> pieceMoves p onlyCaptures piece = []"
  by (simp add: pieceMoves_def bitIndices_empty)

lemma stalematePosition_pieces:
  "isEmpty (getPieceColorBitboard stalematePosition piece BLACK) \<longleftrightarrow> piece \<noteq> KING" if "piece < 6"
  using that stalematePosition_board(1)
  by (auto simp add: isEmpty_iff getPieceColorBitboard_iff stalematePosition_board stalemateBoard_def)

lemma stalematePosition_kingMoves:
  "kingMoves stalematePosition False
     = [Move 56 48 POSITIONAL KING None, Move 56 49 POSITIONAL KING None,
        Move 56 57 POSITIONAL KING None]"
proof -
  have msk: "and_bb (pieceAttackMask stalematePosition KING 56) (targetMask stalematePosition False)
          = or_bb (or_bb (makeIndex 48) (makeIndex 49)) (makeIndex 57)"
    by (simp add: pieceAttackMask_def targetMask_def stalematePosition_def getColorBitboard_def
        table_defs bb_defs makeIndex_def makeZero_def Let_def)
  have ix: "bitIndices (or_bb (or_bb (makeIndex 48) (makeIndex 49)) (makeIndex 57)) = [48, 49, 57]"
    by (simp add: bitIndices_eq upt_conv_Cons)
  have opp: "\<not> isSet (getColorBitboard stalematePosition WHITE) 48"
    "\<not> isSet (getColorBitboard stalematePosition WHITE) 49"
    "\<not> isSet (getColorBitboard stalematePosition WHITE) 57"
    by (simp_all add: getColorBitboard_iff stalematePosition_board stalemateBoard_def)
  have tab: "getPieceAtOrNull stalematePosition 48 = None" "getPieceAtOrNull stalematePosition 49 = None"
    "getPieceAtOrNull stalematePosition 57 = None"
    by (simp_all add: getPieceAtOrNull_def stalematePosition_def)
  show ?thesis
    using msk ix opp tab
    by (simp add: kingMoves_def stalematePosition_frame stalematePosition_king addNormalMoves_def)
qed

lemma stalematePosition_moves:
  "generateMoves stalematePosition False
     = Some [Move 56 48 POSITIONAL KING None, Move 56 49 POSITIONAL KING None,
             Move 56 57 POSITIONAL KING None]"
proof -
  have t: "turn stalematePosition = BLACK" by (fact stalematePosition_frame(1))
  have pw: "isEmpty (getPieceColorBitboard stalematePosition PAWN (turn stalematePosition))"
    unfolding t by (simp add: stalematePosition_pieces)
  have pc: "pieceMoves stalematePosition False KNIGHT = []" "pieceMoves stalematePosition False QUEEN = []"
    "pieceMoves stalematePosition False BISHOP = []" "pieceMoves stalematePosition False ROOK = []"
    by (rule no_piece_moves, simp add: t stalematePosition_pieces)+
  have "plainMoves stalematePosition False = kingMoves stalematePosition False"
    using pc by (simp add: plainMoves_def no_pawn_moves [OF pw])
  moreover have "\<not> bit (castlingRights stalematePosition) n" for n
    by (simp add: stalematePosition_frame)
  ultimately show ?thesis
    by (simp add: generateMoves_parts t stalematePosition_king canCastle_data castleMoves_def
        stalematePosition_kingMoves)
qed

lemma stalematePosition_attacked:
  "leavesKingAttacked rv stalematePosition (Move 56 48 POSITIONAL KING None)"
  "leavesKingAttacked rv stalematePosition (Move 56 49 POSITIONAL KING None)"
  "leavesKingAttacked rv stalematePosition (Move 56 57 POSITIONAL KING None)"
  by (simp_all add: leavesKingAttacked_def updatePieces_def movePiece_def isCapture_def isCastle_def
      isPromotion_def getTurnColor_def stalematePosition_def attack_defs table_defs bb_defs Let_def)

lemma stalematePosition_not_in_check: "\<not> attackedBy stalematePosition WHITE 56"
  by (simp add: stalematePosition_def attack_defs table_defs bb_defs Let_def)

lemma stalematePosition_draws:
  "isFiftyMoveRuleDraw stalematePosition" "isThreefoldRepetitionRuleDraw stalematePosition"
  "isInsufficientMaterialDraw stalematePosition"
  by (simp_all add: isFiftyMoveRuleDraw_def isThreefoldRepetitionRuleDraw_def zobrist_isEqual_def
      isInsufficientMaterialDraw_def stalematePosition_def getPieceBitboard_def getColorBitboard_def
      bb_defs makeIndex_def makeZero_def Let_def)

section \<open>The status of a position\<close>

text \<open>
  Claim C10.  In a consistent position \<open>getStatus\<close> returns, and leaves the position as it
  was.  With no legal move the status is checkmate when the king of the side to move is
  attacked and stalemate when it is not, whatever the three draw tests say; with a legal
  move it is the fifty-move draw if that test holds, else the repetition draw if that
  test holds, else the insufficient-material draw if that test holds, else normal.
\<close>

theorem getStatus_order:
  assumes "consistent p"
  shows "\<exists>legal.
           getMoves rv p False False = Some (legal, p)
           \<and> getStatus rv p
               = Some (if legal = [] then
                         (if attackedBy p (getOtherPieceColor (turn p)) (getKingPosition p (turn p))
                          then CHECKMATE else STALEMATE_DRAW)
                       else if isFiftyMoveRuleDraw p then FIFTY_MOVE_RULE_DRAW
                       else if isThreefoldRepetitionRuleDraw p then THREEFOLD_REPETITION_RULE_DRAW
                       else if isInsufficientMaterialDraw p then INSUFFICIENT_MATERIAL_DRAW
                       else NORMAL, p)"
proof -
  from assms obtain k where ok: "boards_ok p" and k: "kingSquare p (turn p) k"
    by (auto simp add: consistent_def)
  from generateMoves_Some [OF assms] obtain ms where g: "generateMoves p False = Some ms" by blast
  have "getKingPosition p (turn p) < 64" using getKingPosition_eq [OF ok k] k by (simp add: kingSquare_def)
  then have c: "isKingInCheck p
                  = Some (attackedBy p (getOtherPieceColor (turn p)) (getKingPosition p (turn p)))"
    by (simp add: isKingInCheck_def getTurnColor_def isAttacked_eq)
  show ?thesis using getMoves_eq(2) [OF assms g, of rv] c by (simp add: getStatus_def)
qed

theorem getStatus_order_witness:
  "consistent stalematePosition
   \<and> isFiftyMoveRuleDraw stalematePosition
   \<and> isThreefoldRepetitionRuleDraw stalematePosition
   \<and> isInsufficientMaterialDraw stalematePosition
   \<and> \<not> attackedBy stalematePosition WHITE (getKingPosition stalematePosition BLACK)
   \<and> getMoves sampleKeys stalematePosition True False
       = Some ([Move 56 48 POSITIONAL KING None, Move 56 49 POSITIONAL KING None,
                Move 56 57 POSITIONAL KING None], stalematePosition)
   \<and> getMoves sampleKeys stalematePosition False False = Some ([], stalematePosition)
   \<and> getStatus sampleKeys stalematePosition = Some (STALEMATE_DRAW, stalematePosition)"
proof -
  note c = stalematePosition_consistent
  note g = getMoves_eq [OF c stalematePosition_moves, of sampleKeys]
  have l: "getMoves sampleKeys stalematePosition False False = Some ([], stalematePosition)"
    using g(2) stalematePosition_attacked [of sampleKeys] by simp
  from getStatus_order [OF c, of sampleKeys] l
  have "getStatus sampleKeys stalematePosition = Some (STALEMATE_DRAW, stalematePosition)"
    using stalematePosition_not_in_check
    by (simp add: stalematePosition_frame stalematePosition_king)
  then show ?thesis
    using c g(1) l stalematePosition_draws stalematePosition_not_in_check
    by (simp add: stalematePosition_king)
qed

section \<open>Making a move and taking it back\<close>

lemma board_cong: "bitboards q = bitboards q' \<Longrightarrow> board q = board q'"
  by (simp add: board_def pieceOn_def colorOn_def fun_eq_iff)

lemma boards_ok_cong:
  assumes "bitboards q = bitboards q'" "pieces q = pieces q'"
  shows "boards_ok q = boards_ok q'"
  by (simp only: boards_ok_def pieceOn_def colorOn_def assms board_cong [OF assms(1)])

lemma pop_append [simp]: "pop (xs @ y # ys) = Some (last (y # ys), xs @ butlast (y # ys))"
  by (simp add: pop_def butlast_append)

text \<open>
  \<^verbatim>\<open>unmakeMove\<close> after an accepted \<^verbatim>\<open>makeMove\<close>: everything is as before the move, except
  that the clock popped from the history goes to the property \<^verbatim>\<open>halfMoveClock\<close>, and
  \<^verbatim>\<open>halfmoveClock\<close> keeps the value that \<^verbatim>\<open>makeMove\<close> gave it.
\<close>

lemma unmake_make:
  assumes ok: "boards_ok p" and mo: "move_ok p m" and k: "kingSquare p (turn p) k"
    and mk: "makeMove rv p m = Some (True, q)"
  shows "unmakeMove rv q
           = Some (Some m, p\<lparr>halfmoveClock := halfmoveClock q, halfMoveClock := Some (halfmoveClock p)\<rparr>)"
proof -
  note a = makeMove_accepted [OF ok mo k mk]
  note u = updatePieces_board [OF ok mo, of rv]
  define r where "r = q\<lparr>madeMoves := madeMoves p, turn := turn p, hashKey := updateTurn rv (hashKey q)\<rparr>"
  define s where "s = revertPieces rv r m"
  have okr: "boards_ok r"
    using u boards_ok_cong [of r "updatePieces rv p m"] a(2,3) by (simp add: r_def)
  have br: "\<And>i. i < 64 \<Longrightarrow> board r i = boardAfter p m i"
    using u board_cong [of r "updatePieces rv p m"] a(2) by (simp add: r_def)
  have tr: "turn r = turn p" by (simp add: r_def)
  note rb = revertPieces_board [OF ok mo okr br tr, of rv]
  have bs: "bitboards s = bitboards p" "pieces s = pieces p"
    using boards_eqI [of s p] rb ok by (simp_all add: s_def)
  have fs: "same_frame r s" by (simp add: s_def)
  note f = frameD [OF fs]
  have hs: "hv (hashKey s) = hv (hashKey q) + key rv 0 + piecesDelta rv (turn p) m"
    by (simp add: s_def hv_revertPieces tr) (simp add: r_def)
  have hq: "hv (hashKey q) = hv (hashKey p) + frameKey rv (turn p) (castlingRights p) (enPassantSquare p)
              + piecesDelta rv (turn p) m + frameKey rv (turn q) (castlingRights q) (enPassantSquare q)"
    using a(12) [symmetric] by (simp add: add.assoc)
  have tk: "(if turn p = WHITE then 0 else key rv 0) + (if turn q = WHITE then 0 else key rv 0) = key rv 0"
    unfolding a(4) by (cases "turn p") simp_all
  define z where "z = updateEnPassantSquare rv
      (updateEnPassantSquare rv
         (updateCastlingRights rv (updateCastlingRights rv (hashKey s) (castlingRights s)) (castlingRights p))
         (enPassantSquare s)) (enPassantSquare p)"
  have "hv z = hv (hashKey p)
      + ((if turn p = WHITE then 0 else key rv 0) + (if turn q = WHITE then 0 else key rv 0) + key rv 0)"
    unfolding z_def by (simp add: hs hq f frameKey_def r_def ac_simps)
  then have hz: "z = hashKey p" by (simp add: tk flip: hv_inject)
  have can: "canUndo q" by (simp add: canUndo_def getMadeMoveCount_def a(8))
  have "unmakeMove rv q
          = Some (Some m, s\<lparr>halfMoveClock := Some (halfmoveClock p), castlingRights := castlingRights p,
                     enPassantSquare := enPassantSquare p, irreversibleHistory := irreversibleHistory p,
                     hashKey := z, hashHistory := butlast (hashHistory s)\<rparr>)"
    using can f
    by (simp add: unmakeMove_def Let_def a(8,9,4) getTurnColor_def z_def s_def r_def)
  also have "s\<lparr>halfMoveClock := Some (halfmoveClock p), castlingRights := castlingRights p,
                     enPassantSquare := enPassantSquare p, irreversibleHistory := irreversibleHistory p,
                     hashKey := z, hashHistory := butlast (hashHistory s)\<rparr>
      = p\<lparr>halfmoveClock := halfmoveClock q, halfMoveClock := Some (halfmoveClock p)\<rparr>"
    by (rule position_eqI) (simp_all add: same_frame_def f bs hz r_def a(10))
  finally show ?thesis .
qed

section \<open>The initial position\<close>

lemma rank0_iff: "i < 64 \<Longrightarrow> isSet (RANKS ! 0) i \<longleftrightarrow> i < 8"
proof -
  assume i: "i < 64"
  have w: "(0xFF :: 32 word) = mask 8" by (simp add: mask_eq_exp_minus_1)
  show ?thesis using i by (auto simp add: RANKS_eq isSet_iff w bit_simps simp del: push_bit_Suc)
qed

lemma rank7_iff: "i < 64 \<Longrightarrow> isSet (RANKS ! 7) i \<longleftrightarrow> 56 \<le> i"
proof -
  assume i: "i < 64"
  have w: "(0xFF000000 :: 32 word) = push_bit 24 (mask 8)" by (simp add: mask_eq_exp_minus_1 push_bit_eq_mult)
  show ?thesis using i by (auto simp add: RANKS_eq isSet_iff w bit_simps simp del: push_bit_Suc)
qed

definition initPiece :: "nat \<Rightarrow> nat option" where
  "initPiece i =
     (if i = 0 \<or> i = 7 \<or> i = 56 \<or> i = 63 then Some ROOK
      else if i = 1 \<or> i = 6 \<or> i = 57 \<or> i = 62 then Some KNIGHT
      else if i = 2 \<or> i = 5 \<or> i = 58 \<or> i = 61 then Some BISHOP
      else if i = 3 \<or> i = 59 then Some QUEEN
      else if i = 4 \<or> i = 60 then Some KING
      else if (8 \<le> i \<and> i < 16) \<or> (48 \<le> i \<and> i < 56) then Some PAWN
      else None)"

definition initBoard :: "nat \<Rightarrow> (nat \<times> color) option" where
  "initBoard i = map_option (\<lambda>piece. (piece, if i < 16 then WHITE else BLACK)) (initPiece i)"

lemma find_piece:
  assumes pc: "\<And>piece. piece < 6 \<Longrightarrow> P piece \<longleftrightarrow> (\<exists>c. b = Some (piece, c :: color))"
    and lt: "\<And>piece c. b = Some (piece, c) \<Longrightarrow> piece < 6"
  shows "find P [0..<6] = map_option fst b"
proof (cases b)
  case None
  then have "\<forall>piece<6. \<not> P piece" using pc by simp
  then have "find P [0..<6] = None" by (simp only: find_upt_None)
  then show ?thesis using None by simp
next
  case (Some a)
  obtain piece c where a: "a = (piece, c)" by (cases a)
  have l: "piece < 6" using lt Some a by simp
  have "find P [0..<6] = Some piece"
    unfolding find_upt_Some using pc Some a l by auto
  then show ?thesis using Some a by simp
qed

lemma Position_frame:
  "turn (Position rv) = WHITE" "castlingRights (Position rv) = 15" "enPassantSquare (Position rv) = - 1"
  "halfmoveClock (Position rv) = 0" "madeMoves (Position rv) = []" "irreversibleHistory (Position rv) = []"
  "hashHistory (Position rv) = []" "halfMoveClock (Position rv) = None"
  by (simp_all add: Position_def updateHashKey_def fillPiecesFromBitboards_def Let_def)

lemma Position_bitboards:
  "bitboards (Position rv) =
     [or_bb (RANKS ! 1) (RANKS ! 6),
      or_bb (or_bb (or_bb (makeIndex 1) (makeIndex 6)) (makeIndex 57)) (makeIndex 62),
      or_bb (or_bb (or_bb (makeIndex 2) (makeIndex 5)) (makeIndex 58)) (makeIndex 61),
      or_bb (or_bb (or_bb (makeIndex 0) (makeIndex 7)) (makeIndex 56)) (makeIndex 63),
      or_bb (makeIndex 3) (makeIndex 59),
      or_bb (makeIndex 4) (makeIndex 60),
      or_bb (RANKS ! 0) (RANKS ! 1),
      or_bb (RANKS ! 6) (RANKS ! 7)]"
  by (simp add: Position_def updateHashKey_def fillPiecesFromBitboards_def Let_def)

lemma Position_board: "boards_ok (Position rv)" "\<And>i. i < 64 \<Longrightarrow> board (Position rv) i = initBoard i"
proof -
  let ?p = "Position rv"
  have pc: "pieceOn ?p piece i \<longleftrightarrow> (\<exists>c. initBoard i = Some (piece, c))"
    if "i < 64" "piece < 6" for i piece
    using less6_cases [OF that(2)] that(1)
    by (elim disjE; simp add: pieceOn_def Position_bitboards initBoard_def initPiece_def rank1_iff rank6_iff; arith)
  have col: "colorOn ?p c i \<longleftrightarrow> (\<exists>piece. initBoard i = Some (piece, c))" if "i < 64" for i c
    using that
    by (cases c; simp add: colorOn_def Position_bitboards initBoard_def initPiece_def
        rank0_iff rank1_iff rank6_iff rank7_iff; arith)
  have lt: "piece < 6" if "initBoard i = Some (piece, c)" for i piece c
    using that by (auto simp add: initBoard_def initPiece_def split: if_splits)
  have len: "length (bitboards ?p) = 8" by (simp add: Position_bitboards)
  have pcs: "pieces ?p index = (if 0 \<le> index \<and> index < 64
                then find (\<lambda>piece. pieceOn ?p piece (nat index)) [0..<6] else None)" for index
    unfolding pieceOn_def Position_bitboards
    by (simp add: Position_def updateHashKey_def fillPiecesFromBitboards_def Let_def findPieceAtOrNull_def
        getPieceBitboard_def cong: if_cong)
  have tab: "pieces ?p (int i) = map_option fst (initBoard i)" if "i < 64" for i
    using that find_piece [of "\<lambda>piece. pieceOn ?p piece i" "initBoard i", OF pc [OF that] lt]
    by (simp add: pcs)
  have out: "pieces ?p index = None" if "index < 0 \<or> 64 \<le> index" for index
    using that by (auto simp add: pcs)
  show "boards_ok ?p"
    by (rule boards_okI(1) [where brd = initBoard]) (simp_all add: len pc col lt tab out)
  show "\<And>i. i < 64 \<Longrightarrow> board ?p i = initBoard i"
    by (rule boards_okI(2) [where brd = initBoard]) (simp_all add: len pc col lt tab out)
qed

lemma Position_kings: "kingSquare (Position rv) WHITE 4" "kingSquare (Position rv) BLACK 60"
  by (auto simp add: kingSquare_def Position_board initBoard_def initPiece_def split: if_splits)

lemma Position_consistent: "consistent (Position rv)"
proof -
  have "castling_ok (Position rv)"
    unfolding castling_ok_def
  proof (intro conjI allI impI)
    fix c kingSide
    show "board (Position rv) (kingHome c) = Some (KING, c)"
      by (cases c) (simp_all add: Position_board kingHome_def initBoard_def initPiece_def)
    show "board (Position rv) (getCastlingRookSquare c kingSide) = Some (ROOK, c)"
      by (cases c; cases kingSide)
        (simp_all add: Position_board getCastlingRookSquare_def getCastlingIndex_def ROOK_INDICES_def
          initBoard_def initPiece_def)
  qed (simp_all add: Position_frame)
  moreover have "enPassant_ok (Position rv)" by (simp add: enPassant_ok_def Position_frame)
  ultimately show ?thesis
    using Position_kings(1) [of rv] by (auto simp add: consistent_def Position_board Position_frame)
qed

lemma Position_safe: "\<not> attackedBy (Position rv) WHITE 60"
  by (simp add: attack_defs Position_bitboards table_defs bb_defs Let_def)

lemma Position_wf: "wf_position (Position rv)"
proof -
  have "kingSquare (Position rv) c (if c = WHITE then 4 else 60)" for c
    using Position_kings [of rv] by (cases c) simp_all
  then have "\<forall>c. \<exists>k. kingSquare (Position rv) c k" by blast
  moreover have "\<not> attackedBy (Position rv) WHITE k" if "kingSquare (Position rv) BLACK k" for k
    using kingSquare_unique [OF that Position_kings(2)] Position_safe by simp
  ultimately show ?thesis
    using Position_consistent [of rv] by (simp add: wf_position_def consistent_def Position_frame)
qed

text \<open>The knight move b1-a3 in the initial position.\<close>

lemma Position_king: "getKingPosition (Position rv) WHITE = 4"
  by (rule getKingPosition_eq [OF Position_board(1) Position_kings(1)])

lemma Position_knight_move:
  "\<exists>ms. generateMoves (Position rv) False = Some ms \<and> Move 1 16 POSITIONAL KNIGHT None \<in> set ms"
proof -
  let ?p = "Position rv"
  have t: "turn ?p = WHITE" by (simp add: Position_frame)
  have r: "isSet (getPieceColorBitboard ?p KNIGHT WHITE) 1"
    by (simp add: getPieceColorBitboard_iff Position_board initBoard_def initPiece_def)
  have "isSet (KNIGHT_MOVEMENTS ! 1) 16" by (simp add: table_defs bb_defs)
  then have "isSet (and_bb (pieceAttackMask ?p KNIGHT 1) (targetMask ?p False)) 16"
    by (simp add: pieceAttackMask_def targetMask_def t getColorBitboard_iff Position_board
        initBoard_def initPiece_def)
  from addNormalMoves_member [OF _ this, where opponentBB = "getColorBitboard ?p BLACK"
      and frm = 1 and piece = KNIGHT and p = ?p]
  have "Move 1 16 POSITIONAL KNIGHT None
          \<in> set (addNormalMoves ?p (getColorBitboard ?p BLACK) 1
                (and_bb (pieceAttackMask ?p KNIGHT 1) (targetMask ?p False)) KNIGHT)"
    using pieces_at [OF Position_board(1), of 16 rv]
    by (simp add: getColorBitboard_iff Position_board initBoard_def initPiece_def)
  with r have "Move 1 16 POSITIONAL KNIGHT None \<in> set (pieceMoves ?p False KNIGHT)"
    unfolding pieceMoves_def t by (auto intro!: exI [of _ 1])
  then have "Move 1 16 POSITIONAL KNIGHT None \<in> set (plainMoves ?p False)"
    by (simp add: plainMoves_def)
  then show ?thesis by (simp add: generateMoves_parts t Position_king canCastle_eq)
qed

lemma Position_knight_safe: "\<not> leavesKingAttacked rv (Position rv) (Move 1 16 POSITIONAL KNIGHT None)"
  by (simp add: leavesKingAttacked_def updatePieces_def movePiece_def isCapture_def isCastle_def
      isPromotion_def getTurnColor_def Position_frame Position_bitboards attack_defs table_defs bb_defs Let_def)

section \<open>The round trip\<close>

text \<open>
  Claim C1.  In a consistent position, for a generated move \<open>m\<close> that \<open>makeMove\<close> accepts,
  \<open>unmakeMove\<close> returns \<open>m\<close> and restores the hash, the eight bitboards, the piece table,
  the turn, the castling rights, the en-passant square and the three stacks, but not the
  halfmove clock: the value popped from the history is stored in the property
  \<^verbatim>\<open>halfMoveClock\<close>, and \<^verbatim>\<open>halfmoveClock\<close>, which \<^verbatim>\<open>makeMove\<close> and the fifty-move test use, keeps
  what \<open>makeMove\<close> gave it (zero after a capture or a pawn move, else one more than before).
\<close>

theorem make_unmake_round_trip:
  assumes "consistent p" and "generateMoves p onlyCaptures = Some ms" and "m \<in> set ms"
    and "makeMove rv p m = Some (True, q)"
  shows "unmakeMove rv q
           = Some (Some m,
                   p\<lparr>halfmoveClock := (if isCapture m \<or> getPiece m = PAWN then 0 else halfmoveClock p + 1),
                     halfMoveClock := Some (halfmoveClock p)\<rparr>)"
proof -
  from assms(1) obtain k where ok: "boards_ok p" and k: "kingSquare p (turn p) k"
    by (auto simp add: consistent_def)
  have mo: "move_ok p m" using assms(1-3) by (rule generateMoves_ok)
  show ?thesis using unmake_make [OF ok mo k assms(4)] makeMove_accepted(7) [OF ok mo k assms(4)] by simp
qed

theorem make_unmake_round_trip_witness:
  "consistent (Position sampleKeys)
   \<and> (\<exists>ms. generateMoves (Position sampleKeys) False = Some ms
         \<and> Move 1 16 POSITIONAL KNIGHT None \<in> set ms)
   \<and> (\<exists>q. makeMove sampleKeys (Position sampleKeys) (Move 1 16 POSITIONAL KNIGHT None) = Some (True, q)
         \<and> unmakeMove sampleKeys q
             = Some (Some (Move 1 16 POSITIONAL KNIGHT None),
                     (Position sampleKeys)\<lparr>halfmoveClock := 1, halfMoveClock := Some 0\<rparr>))
   \<and> halfmoveClock (Position sampleKeys) = 0"
proof -
  let ?p = "Position sampleKeys" and ?m = "Move 1 16 POSITIONAL KNIGHT None"
  from Position_knight_move obtain ms where ms: "generateMoves ?p False = Some ms" "?m \<in> set ms" by blast
  have c: "consistent ?p" by (rule Position_consistent)
  then obtain k where ok: "boards_ok ?p" and k: "kingSquare ?p (turn ?p) k"
    by (auto simp add: consistent_def)
  have mo: "move_ok ?p ?m" using c ms by (rule generateMoves_ok)
  from makeMove_Some [OF ok mo k, of sampleKeys] Position_knight_safe
  obtain q where q: "makeMove sampleKeys ?p ?m = Some (True, q)" by auto
  from make_unmake_round_trip [OF c ms q]
  have "unmakeMove sampleKeys q = Some (Some ?m, ?p\<lparr>halfmoveClock := 1, halfMoveClock := Some 0\<rparr>)"
    by (simp add: Position_frame isCapture_def)
  with c ms q show ?thesis by (auto simp add: Position_frame)
qed

section \<open>The third occurrence of a position\<close>

text \<open>The boards after moving a piece of a colour from one square to an empty one.\<close>

definition moveBoards :: "bitboard list \<Rightarrow> nat \<Rightarrow> color \<Rightarrow> nat \<Rightarrow> nat \<Rightarrow> bitboard list" where
  "moveBoards B piece c f t =
     (let fromToBB = or_bb (makeIndex f) (makeIndex t);
          b1 = B[piece := xor_bb (B ! piece) fromToBB]
      in b1[ANY_WHITE + cnum c := xor_bb (b1 ! (ANY_WHITE + cnum c)) fromToBB])"

lemma bitboards_movePiece: "bitboards (movePiece rv p piece c f t) = moveBoards (bitboards p) piece c f t"
  by (simp add: movePiece_def moveBoards_def Let_def)

lemma kingSquare_of_bitboard:
  assumes "boards_ok p" "getPieceColorBitboard p KING c = makeIndex k" "k < 64"
  shows "kingSquare p c k"
  unfolding kingSquare_def
proof (intro conjI allI impI)
  fix i :: nat assume i: "i < 64"
  have "board p i = Some (KING, c) \<longleftrightarrow> isSet (getPieceColorBitboard p KING c) i"
    using assms(1) i by (simp add: getPieceColorBitboard_iff)
  then show "board p i = Some (KING, c) \<longleftrightarrow> i = k" using assms(2,3) i by simp
qed (fact assms(3))

text \<open>
  A knight of the side to move goes from \<open>f\<close> to the empty square \<open>t\<close>, and the mover's
  king is not attacked afterwards: \<open>makeMove\<close> accepts the move, pushes the old hash and
  changes the hash by the turn key and the two keys of the knight.
\<close>

lemma knight_step:
  assumes ok: "boards_ok p"
    and kg: "getPieceColorBitboard p KING (turn p) = makeIndex k" "k < 64"
    and fr: "f < 64" "isSet (getPieceColorBitboard p KNIGHT (turn p)) f"
    and to: "t < 64" "\<not> isSet (getOccupiedBitboard p) t"
    and safe: "\<not> attackedBy (p\<lparr>bitboards := moveBoards (bitboards p) KNIGHT (turn p) f t\<rparr>)
                   (getOtherPieceColor (turn p)) k"
    and ep: "enPassantSquare p = - 1"
  shows "\<exists>q. makeMove rv p (Move (int f) (int t) POSITIONAL KNIGHT None) = Some (True, q)
           \<and> boards_ok q
           \<and> bitboards q = moveBoards (bitboards p) KNIGHT (turn p) f t
           \<and> turn q = getOtherPieceColor (turn p)
           \<and> castlingRights q = castlingRights p
           \<and> enPassantSquare q = - 1
           \<and> hashHistory q = hashHistory p @ [hashKey p]
           \<and> hv (hashKey q) = hv (hashKey p) + (key rv 0 + pieceKey rv KNIGHT (turn p) (int f)
                                                 + pieceKey rv KNIGHT (turn p) (int t))"
proof -
  let ?m = "Move (int f) (int t) POSITIONAL KNIGHT None"
  have ks: "kingSquare p (turn p) k" using ok kg by (rule kingSquare_of_bitboard)
  have dec: "getFrom ?m = f" "getTo ?m = t" "getKind ?m = 0" "getPiece ?m = KNIGHT"
    "getCapturedPiece ?m = 0"
    using fr(1) to(1) by (simp_all add: Move_decode)
  have fl: "\<not> isCapture ?m" "\<not> isCastle ?m" "\<not> isPromotion ?m"
    using kind_flags(1) [OF dec(3)] by simp_all
  have bf: "board p f = Some (KNIGHT, turn p)" using fr ok by (simp add: getPieceColorBitboard_iff)
  have bt: "board p t = None" using to ok by (simp add: occupied_iff no_Some_pair)
  have ne: "f \<noteq> t" using bf bt by auto
  have mo: "move_ok p ?m"
    using bf bt ne fl dec by (simp add: move_ok_def)
  have up: "updatePieces rv p ?m = movePiece rv p KNIGHT (turn p) f t"
    using fl dec by (simp add: updatePieces_def Let_def getTurnColor_def)
  have bu: "bitboards (updatePieces rv p ?m) = moveBoards (bitboards p) KNIGHT (turn p) f t"
    by (simp only: up bitboards_movePiece)
  have kq: "kingSquare (updatePieces rv p ?m) (turn p) k"
    using kingSquare_own_after [OF ok mo ks, of rv] dec by simp
  have oku: "boards_ok (updatePieces rv p ?m)" using updatePieces_board [OF ok mo, of rv] by simp
  have kp: "getKingPosition (updatePieces rv p ?m) (turn p) = k" using oku kq by (rule getKingPosition_eq)
  have "attackedBy (updatePieces rv p ?m)
          = attackedBy (p\<lparr>bitboards := moveBoards (bitboards p) KNIGHT (turn p) f t\<rparr>)"
    by (rule bitboards_cong(1)) (use bu in simp)
  then have sf: "\<not> leavesKingAttacked rv p ?m"
    using safe kp by (simp add: leavesKingAttacked_def Let_def)
  from makeMove_Some [OF ok mo ks, of rv] sf obtain q where q: "makeMove rv p ?m = Some (True, q)"
    by auto
  note a = makeMove_accepted [OF ok mo ks q]
  have okq: "boards_ok q" using oku boards_ok_cong [OF a(2,3)] by simp
  have r: "castlingRights q = castlingRights p"
    using dec by (simp add: a(6) rightsAfter_def Let_def)
  have e: "enPassantSquare q = - 1" using dec by (simp add: a(5))
  have d: "piecesDelta rv (turn p) ?m
             = pieceKey rv KNIGHT (turn p) (int f) + pieceKey rv KNIGHT (turn p) (int t)"
    using fl dec by (simp add: piecesDelta_def)
  have tk: "(if getOtherPieceColor (turn p) = WHITE then 0 else key rv 0)
              = (if turn p = WHITE then 0 else key rv 0) + key rv 0"
    by (cases "turn p") simp_all
  have "hv (hashKey q) + frameKey rv (turn q) (castlingRights q) (enPassantSquare q)
          + frameKey rv (turn q) (castlingRights q) (enPassantSquare q)
        = hv (hashKey p) + frameKey rv (turn p) (castlingRights p) (enPassantSquare p)
          + piecesDelta rv (turn p) ?m + frameKey rv (turn q) (castlingRights q) (enPassantSquare q)"
    by (simp only: a(12))
  then have h: "hv (hashKey q) = hv (hashKey p) + (key rv 0 + pieceKey rv KNIGHT (turn p) (int f)
                                                 + pieceKey rv KNIGHT (turn p) (int t))"
    using d by (simp add: add.assoc) (simp add: frameKey_def a(4) r e ep tk ac_simps)
  show ?thesis using q okq bu a(2,4,10) r e h by auto
qed

subsection \<open>Shuffling the knights\<close>

text \<open>
  The boards of the initial position, and after Ng1-f3, after Ng8-f6 and after Nf3-g1;
  Nf6-g8 then gives the initial boards again.
\<close>

definition startBoards :: "bitboard list" where
  "startBoards =
     [\<lparr>low = 0xFF00, high = 0xFF0000\<rparr>, \<lparr>low = 0x42, high = 0x42000000\<rparr>,
      \<lparr>low = 0x24, high = 0x24000000\<rparr>, \<lparr>low = 0x81, high = 0x81000000\<rparr>,
      \<lparr>low = 0x08, high = 0x08000000\<rparr>, \<lparr>low = 0x10, high = 0x10000000\<rparr>,
      \<lparr>low = 0xFFFF, high = 0\<rparr>, \<lparr>low = 0, high = 0xFFFF0000\<rparr>]"

definition shuffleBoards1 :: "bitboard list" where
  "shuffleBoards1 =
     [\<lparr>low = 0xFF00, high = 0xFF0000\<rparr>, \<lparr>low = 0x200002, high = 0x42000000\<rparr>,
      \<lparr>low = 0x24, high = 0x24000000\<rparr>, \<lparr>low = 0x81, high = 0x81000000\<rparr>,
      \<lparr>low = 0x08, high = 0x08000000\<rparr>, \<lparr>low = 0x10, high = 0x10000000\<rparr>,
      \<lparr>low = 0x20FFBF, high = 0\<rparr>, \<lparr>low = 0, high = 0xFFFF0000\<rparr>]"

definition shuffleBoards2 :: "bitboard list" where
  "shuffleBoards2 =
     [\<lparr>low = 0xFF00, high = 0xFF0000\<rparr>, \<lparr>low = 0x200002, high = 0x02002000\<rparr>,
      \<lparr>low = 0x24, high = 0x24000000\<rparr>, \<lparr>low = 0x81, high = 0x81000000\<rparr>,
      \<lparr>low = 0x08, high = 0x08000000\<rparr>, \<lparr>low = 0x10, high = 0x10000000\<rparr>,
      \<lparr>low = 0x20FFBF, high = 0\<rparr>, \<lparr>low = 0, high = 0xBFFF2000\<rparr>]"

definition shuffleBoards3 :: "bitboard list" where
  "shuffleBoards3 =
     [\<lparr>low = 0xFF00, high = 0xFF0000\<rparr>, \<lparr>low = 0x42, high = 0x02002000\<rparr>,
      \<lparr>low = 0x24, high = 0x24000000\<rparr>, \<lparr>low = 0x81, high = 0x81000000\<rparr>,
      \<lparr>low = 0x08, high = 0x08000000\<rparr>, \<lparr>low = 0x10, high = 0x10000000\<rparr>,
      \<lparr>low = 0xFFFF, high = 0\<rparr>, \<lparr>low = 0, high = 0xBFFF2000\<rparr>]"

lemma Position_startBoards: "bitboards (Position rv) = startBoards"
  by (simp add: Position_bitboards startBoards_def RANKS_eq bb_defs makeIndex_def makeZero_def)

lemma shuffle_boards:
  "moveBoards startBoards KNIGHT WHITE 6 21 = shuffleBoards1"
  "moveBoards shuffleBoards1 KNIGHT BLACK 62 45 = shuffleBoards2"
  "moveBoards shuffleBoards2 KNIGHT WHITE 21 6 = shuffleBoards3"
  "moveBoards shuffleBoards3 KNIGHT BLACK 45 62 = startBoards"
  by (simp_all add: moveBoards_def startBoards_def shuffleBoards1_def shuffleBoards2_def
      shuffleBoards3_def bb_defs makeIndex_def makeZero_def Let_def)

lemma shuffle_facts0:
  assumes "bitboards p = startBoards"
  shows "getPieceColorBitboard p KING WHITE = makeIndex 4"
    and "isSet (getPieceColorBitboard p KNIGHT WHITE) 6"
    and "\<not> isSet (getOccupiedBitboard p) 21"
  using assms
  by (simp_all add: getPieceColorBitboard_def getColorBitboard_def getOccupiedBitboard_def
      startBoards_def bb_defs makeIndex_def makeZero_def)

lemma shuffle_facts1:
  assumes "bitboards p = shuffleBoards1"
  shows "getPieceColorBitboard p KING BLACK = makeIndex 60"
    and "isSet (getPieceColorBitboard p KNIGHT BLACK) 62"
    and "\<not> isSet (getOccupiedBitboard p) 45"
  using assms
  by (simp_all add: getPieceColorBitboard_def getColorBitboard_def getOccupiedBitboard_def
      shuffleBoards1_def bb_defs makeIndex_def makeZero_def)

lemma shuffle_facts2:
  assumes "bitboards p = shuffleBoards2"
  shows "getPieceColorBitboard p KING WHITE = makeIndex 4"
    and "isSet (getPieceColorBitboard p KNIGHT WHITE) 21"
    and "\<not> isSet (getOccupiedBitboard p) 6"
  using assms
  by (simp_all add: getPieceColorBitboard_def getColorBitboard_def getOccupiedBitboard_def
      shuffleBoards2_def bb_defs makeIndex_def makeZero_def)

lemma shuffle_facts3:
  assumes "bitboards p = shuffleBoards3"
  shows "getPieceColorBitboard p KING BLACK = makeIndex 60"
    and "isSet (getPieceColorBitboard p KNIGHT BLACK) 45"
    and "\<not> isSet (getOccupiedBitboard p) 62"
  using assms
  by (simp_all add: getPieceColorBitboard_def getColorBitboard_def getOccupiedBitboard_def
      shuffleBoards3_def bb_defs makeIndex_def makeZero_def)

lemma shuffle_safe:
  "\<not> attackedBy (p\<lparr>bitboards := shuffleBoards1\<rparr>) BLACK 4"
  "\<not> attackedBy (p\<lparr>bitboards := shuffleBoards2\<rparr>) WHITE 60"
  "\<not> attackedBy (p\<lparr>bitboards := shuffleBoards3\<rparr>) BLACK 4"
  "\<not> attackedBy (p\<lparr>bitboards := startBoards\<rparr>) WHITE 60"
  by (simp_all add: attack_defs table_defs bb_defs Let_def startBoards_def shuffleBoards1_def
      shuffleBoards2_def shuffleBoards3_def)

text \<open>The four moves, and what they add to the hash of the position they start from.\<close>

definition shuffle :: "move list" where
  "shuffle = [Move 6 21 POSITIONAL KNIGHT None, Move 62 45 POSITIONAL KNIGHT None,
              Move 21 6 POSITIONAL KNIGHT None, Move 45 62 POSITIONAL KNIGHT None]"

definition shuffleKey1 :: "(int \<Rightarrow> 32 word) \<Rightarrow> hashval" where
  "shuffleKey1 rv = key rv 0 + pieceKey rv KNIGHT WHITE 6 + pieceKey rv KNIGHT WHITE 21"

definition shuffleKey2 :: "(int \<Rightarrow> 32 word) \<Rightarrow> hashval" where
  "shuffleKey2 rv = pieceKey rv KNIGHT WHITE 6 + pieceKey rv KNIGHT WHITE 21
                    + pieceKey rv KNIGHT BLACK 62 + pieceKey rv KNIGHT BLACK 45"

definition shuffleKey3 :: "(int \<Rightarrow> 32 word) \<Rightarrow> hashval" where
  "shuffleKey3 rv = key rv 0 + pieceKey rv KNIGHT BLACK 62 + pieceKey rv KNIGHT BLACK 45"

text \<open>Making the moves of a list one after the other; each must be accepted.\<close>

fun playMoves :: "(int \<Rightarrow> 32 word) \<Rightarrow> position \<Rightarrow> move list \<Rightarrow> position option" where
  "playMoves rv p [] = Some p"
| "playMoves rv p (m # ms) =
     (case makeMove rv p m of
        Some (True, q) \<Rightarrow> playMoves rv q ms
      | _ \<Rightarrow> None)"

lemma playMoves_append:
  "playMoves rv p ms = Some q \<Longrightarrow> playMoves rv p (ms @ ns) = playMoves rv q ns"
  by (induction ms arbitrary: p) (auto split: option.splits prod.splits bool.splits)

lemma shuffle_cycle:
  assumes ok: "boards_ok p" and b: "bitboards p = startBoards" and t: "turn p = WHITE"
    and ep: "enPassantSquare p = - 1"
  shows "\<exists>q h1 h2 h3.
           playMoves rv p shuffle = Some q
           \<and> boards_ok q \<and> bitboards q = startBoards \<and> turn q = WHITE \<and> enPassantSquare q = - 1
           \<and> castlingRights q = castlingRights p
           \<and> hashKey q = hashKey p
           \<and> hashHistory q = hashHistory p @ [hashKey p, h1, h2, h3]
           \<and> hv h1 = hv (hashKey p) + shuffleKey1 rv
           \<and> hv h2 = hv (hashKey p) + shuffleKey2 rv
           \<and> hv h3 = hv (hashKey p) + shuffleKey3 rv"
proof -
  note f0 = shuffle_facts0 [OF b]
  have s0: "\<not> attackedBy (p\<lparr>bitboards := moveBoards (bitboards p) KNIGHT (turn p) 6 21\<rparr>)
                (getOtherPieceColor (turn p)) 4"
    using shuffle_safe(1) [of p] shuffle_boards by (simp add: b t)
  from knight_step [OF ok _ _ _ _ _ _ s0 ep, of rv] f0 t shuffle_boards
  obtain p1 where p1: "makeMove rv p (Move 6 21 POSITIONAL KNIGHT None) = Some (True, p1)"
    "boards_ok p1" "bitboards p1 = shuffleBoards1" "turn p1 = BLACK"
    "castlingRights p1 = castlingRights p" "enPassantSquare p1 = - 1"
    "hashHistory p1 = hashHistory p @ [hashKey p]"
    "hv (hashKey p1) = hv (hashKey p) + (key rv 0 + pieceKey rv KNIGHT WHITE 6 + pieceKey rv KNIGHT WHITE 21)"
    by (auto simp add: b)
  note f1 = shuffle_facts1 [OF p1(3)]
  have s1: "\<not> attackedBy (p1\<lparr>bitboards := moveBoards (bitboards p1) KNIGHT (turn p1) 62 45\<rparr>)
                (getOtherPieceColor (turn p1)) 60"
    using shuffle_safe(2) [of p1] shuffle_boards by (simp add: p1)
  from knight_step [OF p1(2) _ _ _ _ _ _ s1 p1(6), of rv] f1 p1(4) shuffle_boards
  obtain p2 where p2: "makeMove rv p1 (Move 62 45 POSITIONAL KNIGHT None) = Some (True, p2)"
    "boards_ok p2" "bitboards p2 = shuffleBoards2" "turn p2 = WHITE"
    "castlingRights p2 = castlingRights p1" "enPassantSquare p2 = - 1"
    "hashHistory p2 = hashHistory p1 @ [hashKey p1]"
    "hv (hashKey p2) = hv (hashKey p1) + (key rv 0 + pieceKey rv KNIGHT BLACK 62 + pieceKey rv KNIGHT BLACK 45)"
    by (auto simp add: p1)
  note f2 = shuffle_facts2 [OF p2(3)]
  have s2: "\<not> attackedBy (p2\<lparr>bitboards := moveBoards (bitboards p2) KNIGHT (turn p2) 21 6\<rparr>)
                (getOtherPieceColor (turn p2)) 4"
    using shuffle_safe(3) [of p2] shuffle_boards by (simp add: p2)
  from knight_step [OF p2(2) _ _ _ _ _ _ s2 p2(6), of rv] f2 p2(4) shuffle_boards
  obtain p3 where p3: "makeMove rv p2 (Move 21 6 POSITIONAL KNIGHT None) = Some (True, p3)"
    "boards_ok p3" "bitboards p3 = shuffleBoards3" "turn p3 = BLACK"
    "castlingRights p3 = castlingRights p2" "enPassantSquare p3 = - 1"
    "hashHistory p3 = hashHistory p2 @ [hashKey p2]"
    "hv (hashKey p3) = hv (hashKey p2) + (key rv 0 + pieceKey rv KNIGHT WHITE 21 + pieceKey rv KNIGHT WHITE 6)"
    by (auto simp add: p2)
  note f3 = shuffle_facts3 [OF p3(3)]
  have s3: "\<not> attackedBy (p3\<lparr>bitboards := moveBoards (bitboards p3) KNIGHT (turn p3) 45 62\<rparr>)
                (getOtherPieceColor (turn p3)) 60"
    using shuffle_safe(4) [of p3] shuffle_boards by (simp add: p3)
  from knight_step [OF p3(2) _ _ _ _ _ _ s3 p3(6), of rv] f3 p3(4) shuffle_boards
  obtain p4 where p4: "makeMove rv p3 (Move 45 62 POSITIONAL KNIGHT None) = Some (True, p4)"
    "boards_ok p4" "bitboards p4 = startBoards" "turn p4 = WHITE"
    "castlingRights p4 = castlingRights p3" "enPassantSquare p4 = - 1"
    "hashHistory p4 = hashHistory p3 @ [hashKey p3]"
    "hv (hashKey p4) = hv (hashKey p3) + (key rv 0 + pieceKey rv KNIGHT BLACK 45 + pieceKey rv KNIGHT BLACK 62)"
    by (auto simp add: p3)
  have pl: "playMoves rv p shuffle = Some p4"
    using p1(1) p2(1) p3(1) p4(1) by (simp add: shuffle_def)
  have h1: "hv (hashKey p1) = hv (hashKey p) + shuffleKey1 rv"
    by (simp add: p1(8) shuffleKey1_def add.assoc)
  have h2: "hv (hashKey p2) = hv (hashKey p) + shuffleKey2 rv"
    by (simp add: p2(8) p1(8) shuffleKey2_def ac_simps)
  have h3: "hv (hashKey p3) = hv (hashKey p) + shuffleKey3 rv"
    by (simp add: p3(8) p2(8) p1(8) shuffleKey3_def ac_simps)
  have "hv (hashKey p4) = hv (hashKey p)"
    by (simp add: p4(8) p3(8) p2(8) p1(8) ac_simps)
  then have h4: "hashKey p4 = hashKey p" by (simp add: hv_inject)
  have hh: "hashHistory p4 = hashHistory p @ [hashKey p, hashKey p1, hashKey p2, hashKey p3]"
    by (simp add: p4(7) p3(7) p2(7) p1(7))
  have cr: "castlingRights p4 = castlingRights p" by (simp add: p4(5) p3(5) p2(5) p1(5))
  show ?thesis using pl p4(2,3,4,6) cr h4 hh h1 h2 h3 by blast
qed

lemma shuffleKeys_nonzero:
  "shuffleKey1 sampleKeys \<noteq> 0" "shuffleKey2 sampleKeys \<noteq> 0" "shuffleKey3 sampleKeys \<noteq> 0"
  by (simp_all add: shuffleKey1_def shuffleKey2_def shuffleKey3_def key_def pieceKey_def sampleKeys_def
      zero_hashval_def)

lemma hash_differs: "hv h = hv z + d \<Longrightarrow> d \<noteq> 0 \<Longrightarrow> h \<noteq> z"
  by auto

section \<open>Threefold repetition\<close>

text \<open>
  Claim C6.  From the initial position the knights go out and back (Ng1-f3, Ng8-f6,
  Nf3-g1, Nf6-g8).  After four plies and again after eight the boards, the turn, the
  castling rights, the en-passant square and the hash are those of the initial position,
  which then stands on the board for the third time.  \<open>makeMove\<close> has pushed the hash of
  each position it left, so of the eight entries of \<open>hashHistory\<close> two equal the current
  hash, and \<open>isThreefoldRepetitionRuleDraw\<close> answers no.  It answers yes after twelve
  plies, at the fourth occurrence.
\<close>

theorem third_occurrence_is_no_draw:
  "\<exists>p4 p8 p12.
     playMoves sampleKeys (Position sampleKeys) shuffle = Some p4
     \<and> playMoves sampleKeys (Position sampleKeys) (shuffle @ shuffle) = Some p8
     \<and> playMoves sampleKeys (Position sampleKeys) (shuffle @ shuffle @ shuffle) = Some p12
     \<and> bitboards p4 = bitboards (Position sampleKeys) \<and> turn p4 = turn (Position sampleKeys)
     \<and> castlingRights p4 = castlingRights (Position sampleKeys)
     \<and> enPassantSquare p4 = enPassantSquare (Position sampleKeys)
     \<and> hashKey p4 = hashKey (Position sampleKeys)
     \<and> bitboards p8 = bitboards (Position sampleKeys) \<and> turn p8 = turn (Position sampleKeys)
     \<and> castlingRights p8 = castlingRights (Position sampleKeys)
     \<and> enPassantSquare p8 = enPassantSquare (Position sampleKeys)
     \<and> hashKey p8 = hashKey (Position sampleKeys)
     \<and> length (hashHistory p8) = 8
     \<and> hashHistory p8 ! 0 = hashKey p8 \<and> hashHistory p8 ! 4 = hashKey p8
     \<and> length (filter (\<lambda>h. h = hashKey p8) (hashHistory p8)) = 2
     \<and> \<not> isThreefoldRepetitionRuleDraw p8
     \<and> length (filter (\<lambda>h. h = hashKey p12) (hashHistory p12)) = 3
     \<and> isThreefoldRepetitionRuleDraw p12"
proof -
  let ?rv = sampleKeys
  let ?p = "Position ?rv"
  note n = shuffleKeys_nonzero
  note i1 = Position_board(1) [of ?rv] and i2 = Position_startBoards [of ?rv]
    and i3 = Position_frame(1) [of ?rv] and i4 = Position_frame(3) [of ?rv]
  from shuffle_cycle [OF i1 i2 i3 i4, of ?rv]
  obtain p4 a1 a2 a3 where p4: "playMoves ?rv ?p shuffle = Some p4"
    "boards_ok p4" "bitboards p4 = startBoards" "turn p4 = WHITE" "enPassantSquare p4 = - 1"
    "castlingRights p4 = castlingRights ?p" "hashKey p4 = hashKey ?p"
    "hashHistory p4 = hashHistory ?p @ [hashKey ?p, a1, a2, a3]"
    "hv a1 = hv (hashKey ?p) + shuffleKey1 ?rv" "hv a2 = hv (hashKey ?p) + shuffleKey2 ?rv"
    "hv a3 = hv (hashKey ?p) + shuffleKey3 ?rv"
    by blast
  from shuffle_cycle [OF p4(2,3,4,5), of ?rv]
  obtain p8 b1 b2 b3 where p8: "playMoves ?rv p4 shuffle = Some p8"
    "boards_ok p8" "bitboards p8 = startBoards" "turn p8 = WHITE" "enPassantSquare p8 = - 1"
    "castlingRights p8 = castlingRights p4" "hashKey p8 = hashKey p4"
    "hashHistory p8 = hashHistory p4 @ [hashKey p4, b1, b2, b3]"
    "hv b1 = hv (hashKey p4) + shuffleKey1 ?rv" "hv b2 = hv (hashKey p4) + shuffleKey2 ?rv"
    "hv b3 = hv (hashKey p4) + shuffleKey3 ?rv"
    by blast
  from shuffle_cycle [OF p8(2,3,4,5), of ?rv]
  obtain p12 c1 c2 c3 where p12: "playMoves ?rv p8 shuffle = Some p12"
    "hashKey p12 = hashKey p8"
    "hashHistory p12 = hashHistory p8 @ [hashKey p8, c1, c2, c3]"
    "hv c1 = hv (hashKey p8) + shuffleKey1 ?rv" "hv c2 = hv (hashKey p8) + shuffleKey2 ?rv"
    "hv c3 = hv (hashKey p8) + shuffleKey3 ?rv"
    by blast
  let ?h = "hashKey ?p"
  have ne: "a1 \<noteq> ?h" "a2 \<noteq> ?h" "a3 \<noteq> ?h" "b1 \<noteq> ?h" "b2 \<noteq> ?h" "b3 \<noteq> ?h"
    "c1 \<noteq> ?h" "c2 \<noteq> ?h" "c3 \<noteq> ?h"
    using p4(9-11) p8(9-11) p12(4-6) n by (auto simp add: p4(7) p8(7) dest: hash_differs)
  have h8: "hashHistory p8 = [?h, a1, a2, a3, ?h, b1, b2, b3]"
    by (simp add: p8(8) p4(8) p4(7) Position_frame)
  have h12: "hashHistory p12 = [?h, a1, a2, a3, ?h, b1, b2, b3, ?h, c1, c2, c3]"
    by (simp add: p12(3) h8 p8(7) p4(7))
  have k8: "hashKey p8 = ?h" and k12: "hashKey p12 = ?h" by (simp_all add: p12(2) p8(7) p4(7))
  have c8: "length (filter (\<lambda>h. h = hashKey p8) (hashHistory p8)) = 2"
    using ne by (simp add: h8 k8)
  have c12: "length (filter (\<lambda>h. h = hashKey p12) (hashHistory p12)) = 3"
    using ne by (simp add: h12 k12)
  have pl8: "playMoves ?rv ?p (shuffle @ shuffle) = Some p8"
    using playMoves_append [OF p4(1), of shuffle] p8(1) by simp
  have pl12: "playMoves ?rv ?p (shuffle @ shuffle @ shuffle) = Some p12"
    using playMoves_append [OF pl8, of shuffle] p12(1) by simp
  have d8: "\<not> isThreefoldRepetitionRuleDraw p8" by (simp add: threefold_count c8)
  have d12: "isThreefoldRepetitionRuleDraw p12" by (simp add: threefold_count c12)
  have "hashHistory p8 ! 0 = hashKey p8" "hashHistory p8 ! 4 = hashKey p8" "length (hashHistory p8) = 8"
    by (simp_all add: h8 k8)
  then show ?thesis
    using p4(1) pl8 pl12 p4(3-7) p8(3-7) c8 c12 d8 d12
    by (intro exI [of _ p4] exI [of _ p8] exI [of _ p12]) (simp add: Position_startBoards Position_frame)
qed

end
